theory Spec2Isabelle
  imports Main "HOL-Library.Word" "HOL-Library.Signed_Division"
begin

unbundle bit_operations_syntax

section \<open>Machine types and Go arithmetic\<close>

text \<open>
  Go's \<open>byte\<close> (\<open>uint8\<close>) and \<open>int64\<close> are fixed-width words. On words \<open>+\<close> wraps,
  \<open>push_bit\<close> is \<open><<\<close> (bits shifted out are lost), \<open>drop_bit\<close> is \<open>>>\<close> on an unsigned
  operand and \<open>signed_drop_bit\<close> is \<open>>>\<close> on a signed one. The conversions \<open>byte(x)\<close>
  (truncation) and \<open>int64(b)\<close> (zero extension of a byte) are both \<open>ucast\<close>.
\<close>

type_synonym byte = "8 word"
type_synonym int64 = "64 word"

text \<open>Go's \<open>%\<close> on signed integers truncates towards zero: the result has the sign of the dividend.\<close>

definition go_rem :: "int64 \<Rightarrow> int64 \<Rightarrow> int64" where
  "go_rem a b = word_of_int (sint a smod sint b)"

text \<open>
  \<open>strconv.FormatInt(n, 2)\<close> for \<open>n \<ge> 0\<close> prints the binary digits of \<open>n\<close> without leading
  zeros (\<open>"0"\<close> for zero); \<open>binary_digits\<close> counts them.
\<close>

fun binary_digits :: "nat \<Rightarrow> nat" where
  "binary_digits n = (if n < 2 then 1 else Suc (binary_digits (n div 2)))"

declare binary_digits.simps [simp del]

text \<open>
  \<open>bitWidth(max) = int64(utf8.RuneCountInString(strconv.FormatInt(max, 2)))\<close>. A negative
  argument prints a leading minus sign, which counts as one more rune.
\<close>

definition bitWidth :: "int64 \<Rightarrow> int64" where
  "bitWidth m = (if 0 \<le> sint m then of_nat (binary_digits (nat (sint m)))
                 else of_nat (Suc (binary_digits (nat (- sint m)))))"

section \<open>Constants and package variables (suid.go, guid.go)\<close>

text \<open>
  suid.go declares \<open>MAX_HOST\<close>, \<open>MAX_SEQ\<close> and \<open>MAX_TIME\<close> for the layout
  time (33 bits), sequence (22 bits), host (8 bits).
\<close>

definition MAX_HOST :: int64 where "MAX_HOST = 0xff"
definition MAX_SEQ :: int64 where "MAX_SEQ = 0x3fffff"
definition MAX_TIME :: int64 where "MAX_TIME = 0x1ffffffff"

definition WID_SEQ :: int64 where "WID_SEQ = bitWidth MAX_SEQ"
definition WID_HOST :: int64 where "WID_HOST = bitWidth MAX_HOST"

text \<open>\<open>_max_seq\<close> of guid.go.\<close>

definition max_seq :: int64 where "max_seq = 0x1ffff"

text \<open>
  guid.go declares neither \<open>MAX_GROUP\<close>, \<open>MAX_HOST\<close> nor \<open>_HOST_ID\<close>, and suid.go has no
  \<open>MAX_GROUP\<close>: guid.go is compiled with the revision of suid.go kept in unnamed/part_002
  (lines 312 to 636), whose layout is group (3 bits), time (34 bits), sequence (19 bits),
  host (7 bits). That revision declares \<open>MAX_GROUP int64 = 0x7\<close> (line 344) and
  \<open>MAX_HOST int64 = 0x7f\<close> (line 341); the latter clashes with the constant of suid.go and
  carries the suffix \<open>_p2\<close> here, as does everything else taken from that revision.
\<close>

definition MAX_GROUP :: int64 where "MAX_GROUP = 0x7"
definition MAX_HOST_p2 :: int64 where "MAX_HOST_p2 = 0x7f"

text \<open>
  The custom base32 alphabet \<open>_ENCODE\<close>, as the bytes of the Go string. suid.go (line 60)
  and the revision in unnamed/part_002 (line 352) declare the same string and fill
  \<open>_DECODE\<close> by the same loop, so \<open>ENCODE\<close> and \<open>DECODE\<close> stand for both.
\<close>

definition ENCODE :: "byte list" where
  "ENCODE = map of_char ''abcdefghijklmnopqrstuvwxyz123456''"

text \<open>
  The decoding table \<open>_DECODE\<close> as \<open>init()\<close> fills it:
  \<open>for i := 0; i < len(_ENCODE); i++ { _DECODE[_ENCODE[i]] = byte(i) }\<close>.
\<close>

definition DECODE :: "byte \<rightharpoonup> byte" where
  "DECODE = fold (\<lambda>i m. m(ENCODE ! i \<mapsto> of_nat i)) [0..<length ENCODE] Map.empty"

text \<open>
  \<open>getHostID\<close> tries four sources in turn; each is an input of the model, present when the
  source yields a number that \<open>strconv.ParseInt\<close> accepts: the variable \<open>SUID_HOST_ID\<close>,
  the last dash-separated part of \<open>POD_NAME\<close> or the host name, the last octet of the
  local IPv4 address, and finally \<open>rand.Int63()\<close>. Every path masks with \<open>MAX_HOST\<close>.
\<close>

definition getHostID :: "int64 option \<Rightarrow> int64 option \<Rightarrow> int64 option \<Rightarrow> int64 \<Rightarrow> int64" where
  "getHostID env_id pod_id ip_last rnd =
     (case env_id of Some i \<Rightarrow> i AND MAX_HOST
      | None \<Rightarrow> (case pod_id of Some i \<Rightarrow> i AND MAX_HOST
        | None \<Rightarrow> (case ip_last of Some l \<Rightarrow> l AND MAX_HOST
          | None \<Rightarrow> rnd AND MAX_HOST)))"

text \<open>
  \<open>getHostID\<close> of the revision in unnamed/part_002 (lines 578 to 612) reads the same four
  sources and masks every path with its own \<open>MAX_HOST\<close>, which is \<open>0x7f\<close>.
\<close>

definition getHostID_p2 :: "int64 option \<Rightarrow> int64 option \<Rightarrow> int64 option \<Rightarrow> int64 \<Rightarrow> int64" where
  "getHostID_p2 env_id pod_id ip_last rnd =
     (case env_id of Some i \<Rightarrow> i AND MAX_HOST_p2
      | None \<Rightarrow> (case pod_id of Some i \<Rightarrow> i AND MAX_HOST_p2
        | None \<Rightarrow> (case ip_last of Some l \<Rightarrow> l AND MAX_HOST_p2
          | None \<Rightarrow> rnd AND MAX_HOST_p2)))"

text \<open>
  The package variables that \<open>New\<close> of suid.go reads and writes: the cached
  \<open>_HOST_ID = getHostID()\<close> and the counter \<open>_SEQ\<close> (an \<open>atomic.Int64\<close>, starting at 0).
\<close>

record globals =
  var_HOST_ID :: int64
  var_SEQ :: int64

definition init_globals :: "int64 option \<Rightarrow> int64 option \<Rightarrow> int64 option \<Rightarrow> int64 \<Rightarrow> globals" where
  "init_globals env_id pod_id ip_last rnd =
     \<lparr>var_HOST_ID = getHostID env_id pod_id ip_last rnd, var_SEQ = 0\<rparr>"

text \<open>
  The package variables that \<open>NewGUID\<close> reads and writes in the package it is compiled in:
  the cached \<open>_HOST_ID = getHostID()\<close> of unnamed/part_002 (line 351) and the counter
  \<open>_seq\<close> of guid.go (an \<open>atomic.Int64\<close>, starting at 0).
\<close>

record globals_guid =
  var_HOST_ID_p2 :: int64
  var_seq :: int64

definition init_globals_guid :: "int64 option \<Rightarrow> int64 option \<Rightarrow> int64 option \<Rightarrow> int64 \<Rightarrow> globals_guid" where
  "init_globals_guid env_id pod_id ip_last rnd =
     \<lparr>var_HOST_ID_p2 = getHostID_p2 env_id pod_id ip_last rnd, var_seq = 0\<rparr>"

section \<open>SUID (suid.go)\<close>

datatype SUID = SUID (suid_value: int64)

text \<open>
  \<open>New\<close>: \<open>now\<close> is the reading \<open>time.Now().UTC().Unix()\<close>. \<open>_SEQ.Add(1)\<close> stores and returns
  the incremented counter. The shift counts are the \<open>int64\<close> values \<open>_WID_SEQ + _WID_HOST\<close>
  and \<open>_WID_HOST\<close>.
\<close>

definition New :: "int64 \<Rightarrow> globals \<Rightarrow> SUID \<times> globals" where
  "New now g =
     (let c = var_SEQ g + 1;
          s = go_rem c MAX_SEQ;
          thisTime = now
      in (SUID (push_bit (nat (sint (WID_SEQ + WID_HOST))) thisTime
                OR push_bit (nat (sint WID_HOST)) s
                OR var_HOST_ID g),
          g\<lparr>var_SEQ := c\<rparr>))"

definition FromInteger :: "int64 \<Rightarrow> SUID" where
  "FromInteger v = SUID v"


definition Host :: "SUID \<Rightarrow> int64" where
  "Host s = suid_value s AND MAX_HOST"

definition Time :: "SUID \<Rightarrow> int64" where
  "Time s = signed_drop_bit (nat (sint (WID_SEQ + WID_HOST))) (suid_value s) AND MAX_TIME"

definition Verify :: "SUID \<Rightarrow> bool" where
  "Verify s \<longleftrightarrow> 1745400000 <s Time s"

text \<open>
  \<open>encode\<close>: \<open>for j := 12; j >= 0; j-- { bytes[j] = _ENCODE[i&0x1f]; i >>= 5 }\<close>. The first
  argument of \<open>encode_loop\<close> is \<open>j + 1\<close>, the number of iterations left; the index
  \<open>i & 0x1f\<close> is below 32, so the read of \<open>_ENCODE\<close> is always in range.
\<close>

fun encode_loop :: "nat \<Rightarrow> int64 \<Rightarrow> byte list \<Rightarrow> byte list" where
  "encode_loop 0 i bytes = bytes"
| "encode_loop (Suc j) i bytes =
     encode_loop j (signed_drop_bit 5 i) (bytes[j := ENCODE ! unat (i AND 0x1f)])"

definition encode :: "int64 \<Rightarrow> byte list" where
  "encode i = encode_loop 13 i (replicate 13 0)"

datatype error =
    InvalidLength              \<comment> \<open>"invalid suid string length" (decode and decodeGUID)\<close>
  | InvalidSuidCharacter byte  \<comment> \<open>"invalid character in suid string: %c"\<close>
  | InvalidUuidCharacter byte  \<comment> \<open>"invalid character in uuid string: %c"\<close>

text \<open>
  \<open>decode\<close> returns Go's pair \<open>(int64, error)\<close>; \<open>None\<close> is the \<open>nil\<close> error.
  \<open>for i := range 13\<close> runs \<open>i\<close> from 0 to 12.
\<close>

function decode_loop :: "byte list \<Rightarrow> nat \<Rightarrow> int64 \<Rightarrow> int64 \<times> error option" where
  "decode_loop data i v =
     (if i < 13 then
        (case DECODE (data ! i) of
           None \<Rightarrow> (0, Some (InvalidSuidCharacter (data ! i)))
         | Some idx \<Rightarrow> decode_loop data (Suc i) (push_bit 5 v OR ucast idx))
      else (v, None))"
  by pat_completeness auto
termination
  by (relation "measure (\<lambda>(data, i, v). 13 - i)") auto

declare decode_loop.simps [simp del]

definition decode :: "byte list \<Rightarrow> int64 \<times> error option" where
  "decode data = (if length data \<noteq> 13 then (0, Some InvalidLength) else decode_loop data 0 0)"

definition String :: "SUID \<Rightarrow> byte list" where
  "String s = encode (suid_value s)"

definition FromString :: "byte list \<Rightarrow> SUID \<times> error option" where
  "FromString str =
     (case decode str of
        (i, Some e) \<Rightarrow> (SUID 0, Some e)
      | (i, None) \<Rightarrow> (SUID i, None))"

section \<open>GUID (guid.go)\<close>

text \<open>\<open>type GUID [10]byte\<close>: the ten bytes \<open>u[0]\<close> to \<open>u[9]\<close>.\<close>

datatype GUID = GUID (byte0: byte) (byte1: byte) (byte2: byte) (byte3: byte) (byte4: byte)
                     (byte5: byte) (byte6: byte) (byte7: byte) (byte8: byte) (byte9: byte)

definition zero_GUID :: GUID where
  "zero_GUID = GUID 0 0 0 0 0 0 0 0 0 0"

text \<open>
  A call either returns or panics. A panic \<open>panic(fmt.Sprintf("... Invalid input group: %d", g))\<close>
  unwinds the calling goroutine and, unless recovered, ends the process. \<open>NewGUID\<close> has
  no error result.
\<close>

datatype panic =
    InvalidInputGroup byte      \<comment> \<open>guid.go: "[SUID] Invalid input group: %d"\<close>
  | InvalidInputGroup_rev byte  \<comment> \<open>unnamed/part_001: "[GUID] Invalid input group: %d"\<close>

datatype 'a outcome = Returned 'a | Panicked panic

text \<open>
  The ten assignments \<open>u[0] = ...\<close> to \<open>u[9] = ...\<close> of \<open>NewGUID\<close>, for the group \<open>g\<close>, the
  clock reading \<open>time\<close>, the reduced sequence \<open>s\<close> and the cached host id.
\<close>

definition guid_bytes :: "byte \<Rightarrow> int64 \<Rightarrow> int64 \<Rightarrow> int64 \<Rightarrow> GUID" where
  "guid_bytes g time s host =
     GUID (push_bit 5 g OR (ucast (signed_drop_bit 48 time) AND 0x1f))
          (ucast (signed_drop_bit 40 time))
          (ucast (signed_drop_bit 32 time))
          (ucast (signed_drop_bit 24 time))
          (ucast (signed_drop_bit 16 time))
          (ucast (signed_drop_bit 8 time))
          (ucast time)
          (ucast (signed_drop_bit 9 s))
          (ucast (signed_drop_bit 1 s))
          (ucast ((push_bit 7 s AND 0x80) OR host))"

text \<open>
  \<open>NewGUID(group ...uint8)\<close>: the variadic argument \<open>group\<close> is the list \<open>groups\<close>; \<open>now\<close> is
  \<open>time.Now().UnixMicro()\<close>. The group check precedes the counter increment, so a
  panicking call leaves the counter as it was.
\<close>

definition NewGUID :: "byte list \<Rightarrow> int64 \<Rightarrow> globals_guid \<Rightarrow> (GUID \<times> globals_guid) outcome" where
  "NewGUID groups now g =
     (let grp = (if length groups > 0 then groups ! 0 else 0) in
      if grp > ucast MAX_GROUP then Panicked (InvalidInputGroup grp)
      else
        let time = now;
            c = var_seq g + 1;
            s = go_rem c max_seq
        in Returned (guid_bytes grp time s (var_HOST_ID_p2 g), g\<lparr>var_seq := c\<rparr>))"

definition Group :: "GUID \<Rightarrow> byte" where
  "Group s = drop_bit 5 (byte0 s)"

definition HostID :: "GUID \<Rightarrow> int64" where
  "HostID s = ucast (byte9 s AND 0x7f)"

definition Seq_GUID :: "GUID \<Rightarrow> int64" where
  "Seq_GUID s = push_bit 9 (ucast (byte7 s)) OR push_bit 1 (ucast (byte8 s))
                OR signed_drop_bit 7 (ucast (byte9 s))"

definition Time_GUID :: "GUID \<Rightarrow> int64" where
  "Time_GUID s = ucast (byte6 s) OR push_bit 8 (ucast (byte5 s)) OR push_bit 16 (ucast (byte4 s))
                 OR push_bit 24 (ucast (byte3 s)) OR push_bit 32 (ucast (byte2 s))
                 OR push_bit 40 (ucast (byte1 s)) OR push_bit 48 (ucast (byte0 s AND 0x1f))"

text \<open>\<open>encodeGUID\<close>: sixteen symbols, eight for each half of five bytes.\<close>

definition encodeGUID :: "GUID \<Rightarrow> byte list" where
  "encodeGUID u =
     [ENCODE ! unat (drop_bit 3 (byte0 u)),
      ENCODE ! unat ((push_bit 2 (byte0 u) AND 0x1f) OR drop_bit 6 (byte1 u)),
      ENCODE ! unat (drop_bit 1 (byte1 u) AND 0x1f),
      ENCODE ! unat ((push_bit 4 (byte1 u) AND 0x1f) OR drop_bit 4 (byte2 u)),
      ENCODE ! unat ((push_bit 1 (byte2 u) AND 0x1f) OR drop_bit 7 (byte3 u)),
      ENCODE ! unat (drop_bit 2 (byte3 u) AND 0x1f),
      ENCODE ! unat ((push_bit 3 (byte3 u) AND 0x1f) OR drop_bit 5 (byte4 u)),
      ENCODE ! unat (byte4 u AND 0x1f),
      ENCODE ! unat (drop_bit 3 (byte5 u)),
      ENCODE ! unat ((push_bit 2 (byte5 u) AND 0x1f) OR drop_bit 6 (byte6 u)),
      ENCODE ! unat (drop_bit 1 (byte6 u) AND 0x1f),
      ENCODE ! unat ((push_bit 4 (byte6 u) AND 0x1f) OR drop_bit 4 (byte7 u)),
      ENCODE ! unat ((push_bit 1 (byte7 u) AND 0x1f) OR drop_bit 7 (byte8 u)),
      ENCODE ! unat (drop_bit 2 (byte8 u) AND 0x1f),
      ENCODE ! unat ((push_bit 3 (byte8 u) AND 0x1f) OR drop_bit 5 (byte9 u)),
      ENCODE ! unat (byte9 u AND 0x1f)]"

text \<open>
  The validation loop of \<open>decodeGUID\<close>,
  \<open>for i := range d { idx, ok := _DECODE[d[i]]; if !ok { return ... }; d[i] = idx }\<close>.
  The slice \<open>d\<close> shares its array with the caller, so the loop's writes are part of the
  result: \<open>decode_scan\<close> returns the buffer as the loop leaves it.
\<close>

function decode_scan :: "byte list \<Rightarrow> nat \<Rightarrow> byte list \<times> error option" where
  "decode_scan d i =
     (if i < length d then
        (case DECODE (d ! i) of
           None \<Rightarrow> (d, Some (InvalidUuidCharacter (d ! i)))
         | Some idx \<Rightarrow> decode_scan (d[i := idx]) (Suc i))
      else (d, None))"
  by pat_completeness auto
termination
  by (relation "measure (\<lambda>(d, i). length d - i)") auto

declare decode_scan.simps [simp del]

text \<open>
  \<open>decodeGUID\<close> returns the caller's buffer as it leaves it, the named result \<open>u\<close> (all
  zero until the ten assignments after the loop) and the error.
\<close>

definition decodeGUID :: "byte list \<Rightarrow> byte list \<times> GUID \<times> error option" where
  "decodeGUID d =
     (if length d \<noteq> 16 then (d, zero_GUID, Some InvalidLength)
      else
        (case decode_scan d 0 of
           (d', Some e) \<Rightarrow> (d', zero_GUID, Some e)
         | (d', None) \<Rightarrow>
             (d',
              GUID (push_bit 3 (d' ! 0) OR drop_bit 2 (d' ! 1))
                   (push_bit 6 (d' ! 1) OR push_bit 1 (d' ! 2) OR drop_bit 4 (d' ! 3))
                   (push_bit 4 (d' ! 3) OR drop_bit 1 (d' ! 4))
                   (push_bit 7 (d' ! 4) OR push_bit 2 (d' ! 5) OR drop_bit 3 (d' ! 6))
                   (push_bit 5 (d' ! 6) OR d' ! 7)
                   (push_bit 3 (d' ! 8) OR drop_bit 2 (d' ! 9))
                   (push_bit 6 (d' ! 9) OR push_bit 1 (d' ! 10) OR drop_bit 4 (d' ! 11))
                   (push_bit 4 (d' ! 11) OR drop_bit 1 (d' ! 12))
                   (push_bit 7 (d' ! 12) OR push_bit 2 (d' ! 13) OR drop_bit 3 (d' ! 14))
                   (push_bit 5 (d' ! 14) OR d' ! 15),
              None)))"

text \<open>\<open>ParseGUID(str)\<close> decodes a fresh copy \<open>[]byte(str)\<close>; the copy is dropped.\<close>

definition ParseGUID :: "byte list \<Rightarrow> GUID \<times> error option" where
  "ParseGUID str = snd (decodeGUID str)"

definition String_GUID :: "GUID \<Rightarrow> byte list" where
  "String_GUID s = encodeGUID s"

text \<open>
  \<open>(s *GUID) UnmarshalText(data)\<close> decodes the caller's slice itself. The result is the
  slice afterwards, the receiver afterwards (unchanged on an error) and the error.
\<close>

definition UnmarshalText_GUID :: "GUID \<Rightarrow> byte list \<Rightarrow> byte list \<times> GUID \<times> error option" where
  "UnmarshalText_GUID s data =
     (case decodeGUID data of
        (data', u, Some e) \<Rightarrow> (data', s, Some e)
      | (data', u, None) \<Rightarrow> (data', u, None))"

section \<open>The later GUID revision (unnamed/part_001)\<close>

text \<open>
  unnamed/part_001 is a later revision of guid.go with the layout group (4 bits), time (54
  bits), sequence (14 bits) and host (8 bits). Its names clash with the ones above and carry
  the suffix \<open>_rev\<close> here: \<open>MAX_GROUP Group = 0x0f\<close> (\<open>type Group uint8\<close>),
  \<open>MAX_SEQ uint64 = 0x3fff\<close>, \<open>New\<close>, \<open>Group\<close> and \<open>decodeFrom\<close>.
\<close>

definition MAX_GROUP_rev :: byte where "MAX_GROUP_rev = 0x0f"
definition MAX_SEQ_rev :: "64 word" where "MAX_SEQ_rev = 0x3fff"

text \<open>
  The package \<open>internal/coder\<close> that this revision imports is the second file in uuid.go
  (from line 159). It declares \<open>ENCODE\<close> and \<open>DECODE\<close> with the alphabet and the filling
  loop of suid.go, and the host id \<open>HOSTID uint8 = getHostID()\<close>, whose resolver reads the
  same four sources and returns \<open>uint8(id)\<close>, the low eight bits.
\<close>

definition ENCODE_coder :: "byte list" where
  "ENCODE_coder = map of_char ''abcdefghijklmnopqrstuvwxyz123456''"

definition DECODE_coder :: "byte \<rightharpoonup> byte" where
  "DECODE_coder = fold (\<lambda>i m. m(ENCODE_coder ! i \<mapsto> of_nat i)) [0..<length ENCODE_coder] Map.empty"

definition getHostID_coder :: "int64 option \<Rightarrow> int64 option \<Rightarrow> int64 option \<Rightarrow> int64 \<Rightarrow> byte" where
  "getHostID_coder env_id pod_id ip_last rnd =
     (case env_id of Some i \<Rightarrow> ucast i
      | None \<Rightarrow> (case pod_id of Some i \<Rightarrow> ucast i
        | None \<Rightarrow> (case ip_last of Some l \<Rightarrow> ucast l
          | None \<Rightarrow> ucast rnd)))"

text \<open>
  \<open>New(group ...Group)\<close>. The package variables it reads are arguments: the host byte
  \<open>coder.HOSTID\<close> and the counter \<open>_seq\<close>, an \<open>atomic.Uint64\<close> whose \<open>%\<close> is the unsigned
  remainder.
\<close>

definition New_rev :: "byte list \<Rightarrow> int64 \<Rightarrow> byte \<Rightarrow> 64 word \<Rightarrow> (GUID \<times> 64 word) outcome" where
  "New_rev groups now hostid counter =
     (let g = (if length groups > 0 then groups ! 0 else 0) in
      if g > MAX_GROUP_rev then Panicked (InvalidInputGroup_rev g)
      else
        let time = now;
            c = counter + 1;
            s = c mod MAX_SEQ_rev
        in Returned
             (GUID (push_bit 4 g OR (ucast (signed_drop_bit 50 time) AND 0x0f))
                   (ucast (signed_drop_bit 42 time))
                   (ucast (signed_drop_bit 34 time))
                   (ucast (signed_drop_bit 26 time))
                   (ucast (signed_drop_bit 18 time))
                   (ucast (signed_drop_bit 10 time))
                   (ucast (signed_drop_bit 2 time))
                   (ucast (push_bit 6 time AND 0xc0) OR ucast (drop_bit 8 s AND 0x3f))
                   (ucast s)
                   hostid,
              c))"

definition Group_rev :: "GUID \<Rightarrow> byte" where
  "Group_rev g = drop_bit 4 (byte0 g)"

text \<open>
  The validation loop of \<open>decodeFrom\<close>,
  \<open>for i := range d { idx, ok := coder.DECODE[d[i]]; if !ok { return ... }; d[i] = idx }\<close>,
  on the caller's slice.
\<close>

function decode_scan_coder :: "byte list \<Rightarrow> nat \<Rightarrow> byte list \<times> error option" where
  "decode_scan_coder d i =
     (if i < length d then
        (case DECODE_coder (d ! i) of
           None \<Rightarrow> (d, Some (InvalidUuidCharacter (d ! i)))
         | Some idx \<Rightarrow> decode_scan_coder (d[i := idx]) (Suc i))
      else (d, None))"
  by pat_completeness auto
termination
  by (relation "measure (\<lambda>(d, i). length d - i)") auto

declare decode_scan_coder.simps [simp del]

text \<open>
  \<open>(g *GUID) decodeFrom(d)\<close> assigns the receiver only after the loop and the ten
  assignments. The result is the caller's slice afterwards, the receiver afterwards and the
  error.
\<close>

definition decodeFrom :: "GUID \<Rightarrow> byte list \<Rightarrow> byte list \<times> GUID \<times> error option" where
  "decodeFrom g d =
     (if length d \<noteq> 16 then (d, g, Some InvalidLength)
      else
        (case decode_scan_coder d 0 of
           (d', Some e) \<Rightarrow> (d', g, Some e)
         | (d', None) \<Rightarrow>
             (d',
              GUID (push_bit 3 (d' ! 0) OR drop_bit 2 (d' ! 1))
                   (push_bit 6 (d' ! 1) OR push_bit 1 (d' ! 2) OR drop_bit 4 (d' ! 3))
                   (push_bit 4 (d' ! 3) OR drop_bit 1 (d' ! 4))
                   (push_bit 7 (d' ! 4) OR push_bit 2 (d' ! 5) OR drop_bit 3 (d' ! 6))
                   (push_bit 5 (d' ! 6) OR d' ! 7)
                   (push_bit 3 (d' ! 8) OR drop_bit 2 (d' ! 9))
                   (push_bit 6 (d' ! 9) OR push_bit 1 (d' ! 10) OR drop_bit 4 (d' ! 11))
                   (push_bit 4 (d' ! 11) OR drop_bit 1 (d' ! 12))
                   (push_bit 7 (d' ! 12) OR push_bit 2 (d' ! 13) OR drop_bit 3 (d' ! 14))
                   (push_bit 5 (d' ! 14) OR d' ! 15),
              None)))"

section \<open>Notions for comparing texts and values\<close>

text \<open>
  The array of a GUID as the list of its bytes in index order: the order in which two GUIDs
  compare bytewise.
\<close>

definition GUID_bytes :: "GUID \<Rightarrow> byte list" where
  "GUID_bytes g = [byte0 g, byte1 g, byte2 g, byte3 g, byte4 g, byte5 g, byte6 g, byte7 g, byte8 g, byte9 g]"

text \<open>
  The \<open>n\<close> digits of \<open>v\<close> in base \<open>2^w\<close>, most significant first. The proofs read
  a byte sequence (\<open>w = 8\<close>) and a symbol-index sequence (\<open>w = 5\<close>) as digits of one
  number.
\<close>

fun digits :: "nat \<Rightarrow> nat \<Rightarrow> nat \<Rightarrow> nat list" where
  "digits w 0 v = []"
| "digits w (Suc n) v = (v div 2 ^ (w * n)) mod 2 ^ w # digits w n v"

text \<open>Five bytes as one 40-bit number, and the ten bytes of a GUID as one 80-bit number.\<close>

definition half_word :: "byte \<Rightarrow> byte \<Rightarrow> byte \<Rightarrow> byte \<Rightarrow> byte \<Rightarrow> 64 word" where
  "half_word xa xb xc xd xe =
     push_bit 32 (ucast xa) OR push_bit 24 (ucast xb) OR push_bit 16 (ucast xc)
     OR push_bit 8 (ucast xd) OR ucast xe"

definition guid_number :: "GUID \<Rightarrow> nat" where
  "guid_number g =
     unat (half_word (byte0 g) (byte1 g) (byte2 g) (byte3 g) (byte4 g)) * 2 ^ 40
     + unat (half_word (byte5 g) (byte6 g) (byte7 g) (byte8 g) (byte9 g))"

section \<open>The alphabet and its decoding table\<close>

lemma length_ENCODE: "length ENCODE = 32" by (simp add: ENCODE_def)

lemma distinct_ENCODE: "distinct ENCODE"
  by (simp add: ENCODE_def)

lemma table_hit:
  "distinct xs \<Longrightarrow> n \<le> length xs \<Longrightarrow> i < n \<Longrightarrow>
   fold (\<lambda>i m. m(xs ! i \<mapsto> f i)) [0..<n] Map.empty (xs ! i) = Some (f i)"
proof (induction n)
  case 0
  then show ?case by simp
next
  case (Suc n)
  show ?case
  proof (cases "i = n")
    case True
    then show ?thesis by simp
  next
    case False
    with Suc.prems have "i < n" "xs ! i \<noteq> xs ! n"
      by (auto simp: nth_eq_iff_index_eq)
    with Suc show ?thesis by simp
  qed
qed

lemma table_miss:
  "n \<le> length xs \<Longrightarrow> c \<notin> set (take n xs) \<Longrightarrow>
   fold (\<lambda>i m. m(xs ! i \<mapsto> f i)) [0..<n] Map.empty c = None"
  by (induction n) (auto simp: take_Suc_conv_app_nth)

lemma DECODE_hit: "i < 32 \<Longrightarrow> DECODE (ENCODE ! i) = Some (of_nat i)"
  unfolding DECODE_def using table_hit [OF distinct_ENCODE, of "length ENCODE" i of_nat]
  by (simp add: length_ENCODE)

lemma DECODE_miss: "c \<notin> set ENCODE \<Longrightarrow> DECODE c = None"
  unfolding DECODE_def using table_miss [of "length ENCODE" ENCODE c of_nat]
  by simp

lemma DECODE_Some_iff: "DECODE c = Some k \<longleftrightarrow> (\<exists>i<32. ENCODE ! i = c \<and> k = of_nat i)"
proof (cases "c \<in> set ENCODE")
  case True
  then obtain i where i: "i < 32" "ENCODE ! i = c"
    by (auto simp: in_set_conv_nth length_ENCODE)
  show ?thesis
  proof
    assume "DECODE c = Some k"
    with i DECODE_hit [of i] show "\<exists>i<32. ENCODE ! i = c \<and> k = of_nat i" by auto
  next
    assume "\<exists>i<32. ENCODE ! i = c \<and> k = of_nat i"
    then show "DECODE c = Some k" using DECODE_hit by auto
  qed
next
  case False
  then have "\<And>i. i < 32 \<Longrightarrow> ENCODE ! i \<noteq> c"
    by (metis length_ENCODE nth_mem)
  with False show ?thesis by (auto simp: DECODE_miss)
qed

lemma DECODE_None_iff: "DECODE c = None \<longleftrightarrow> c \<notin> set ENCODE"
proof
  assume "DECODE c = None"
  show "c \<notin> set ENCODE"
  proof
    assume "c \<in> set ENCODE"
    then obtain i where "i < 32" "ENCODE ! i = c"
      by (auto simp: in_set_conv_nth length_ENCODE)
    with DECODE_hit [of i] \<open>DECODE c = None\<close> show False by simp
  qed
qed (rule DECODE_miss)

section \<open>SUID text codec: decoding an encoding\<close>

lemma and_1f: "x AND 0x1f = take_bit 5 x" for x :: "'a::len word"
  by (simp add: take_bit_eq_mask mask_numeral)

lemma unat_digit_less: "unat (take_bit 5 x) < 32" for x :: "'a::len word"
  using take_bit_nat_less_exp [of 5 "unat x"] by (simp add: unsigned_take_bit_eq)

lemma DECODE_digit:
  "DECODE (ENCODE ! unat (take_bit 5 x)) = Some (ucast (take_bit 5 x))" for x :: "'a::len word"
  using DECODE_hit [OF unat_digit_less, of x] by simp

lemma length_encode_loop: "length (encode_loop n i bytes) = length bytes"
  by (induction n arbitrary: i bytes) auto

lemma encode_loop_nth:
  "n \<le> length bytes \<Longrightarrow> k < length bytes \<Longrightarrow>
   encode_loop n i bytes ! k =
     (if k < n then ENCODE ! unat (take_bit 5 (signed_drop_bit (5 * (n - 1 - k)) i)) else bytes ! k)"
proof (induction n arbitrary: i bytes)
  case 0
  then show ?case by simp
next
  case (Suc n)
  have "k < n \<Longrightarrow> 5 * (n - 1 - k) + 5 = 5 * (n - k)" by simp
  with Suc show ?case
    by (auto simp: and_1f less_Suc_eq)
qed

lemma length_encode: "length (encode i) = 13"
  by (simp add: encode_def length_encode_loop)

lemma encode_nth:
  "k < 13 \<Longrightarrow> encode i ! k = ENCODE ! unat (take_bit 5 (signed_drop_bit (5 * (12 - k)) i))"
  by (simp add: encode_def encode_loop_nth)

lemma bit_sdb64:
  "bit (signed_drop_bit s v) n \<longleftrightarrow> n < 64 \<and> bit v (min 63 (s + n))" for v :: int64
proof (cases "n < 64")
  case True
  have "\<not> 64 - s \<le> n \<Longrightarrow> 63 \<le> s + n \<Longrightarrow> s + n = 63" by arith
  with True show ?thesis
    by (auto simp: bit_signed_drop_bit_iff min_def)
next
  case False
  then show ?thesis
    using bit_imp_le_length [of "signed_drop_bit s v" n] by auto
qed

lemma ucast_digit_byte:
  "ucast (ucast (take_bit 5 x) :: byte) = take_bit 5 x" for x :: int64
  by (intro bit_word_eqI) (auto simp: bit_simps)

lemma decode_step:
  fixes v :: int64
  shows "push_bit 5 (take_bit m (signed_drop_bit (s + 5) v)) OR take_bit 5 (signed_drop_bit s v)
         = take_bit (m + 5) (signed_drop_bit s v)"
proof (rule bit_word_eqI)
  fix n assume "n < LENGTH(64)"
  have "5 \<le> n \<Longrightarrow> s + 5 + (n - 5) = s + n" by simp
  then show "bit (push_bit 5 (take_bit m (signed_drop_bit (s + 5) v)) OR take_bit 5 (signed_drop_bit s v)) n
        \<longleftrightarrow> bit (take_bit (m + 5) (signed_drop_bit s v)) n"
    by (auto simp: bit_or_iff bit_push_bit_iff bit_take_bit_iff bit_sdb64)
qed

lemma decode_loop_invariant:
  assumes "length data = 13"
    and "\<And>k. k < 13 \<Longrightarrow> DECODE (data ! k) = Some (ucast (take_bit 5 (signed_drop_bit (5 * (12 - k)) v)))"
  shows "i \<le> 13 \<Longrightarrow> decode_loop data i (take_bit (5 * i) (signed_drop_bit (5 * (13 - i)) v)) = (v, None)"
proof (induction "13 - i" arbitrary: i)
  case 0
  then have "i = 13" by simp
  then show ?case
    using take_bit_length_eq [of v] by (simp add: decode_loop.simps take_bit_word_beyond_length_eq)
next
  case (Suc d)
  then have i: "i < 13" by simp
  have sh: "5 * (13 - i) = 5 * (12 - i) + 5" using i by simp
  have "decode_loop data i (take_bit (5 * i) (signed_drop_bit (5 * (13 - i)) v))
      = decode_loop data (Suc i) (take_bit (5 * i + 5) (signed_drop_bit (5 * (12 - i)) v))"
    using i by (subst decode_loop.simps) (simp add: assms(2) ucast_digit_byte sh decode_step)
  also have "5 * (12 - i) = 5 * (13 - Suc i)" by simp
  also have "5 * i + 5 = 5 * Suc i" by simp
  finally show ?case using Suc.hyps(1) [of "Suc i"] Suc.hyps(2) i by simp
qed

lemma decode_encode: "decode (encode v) = (v, None)"
proof -
  have "\<And>k. k < 13 \<Longrightarrow> DECODE (encode v ! k) = Some (ucast (take_bit 5 (signed_drop_bit (5 * (12 - k)) v)))"
    by (simp add: encode_nth DECODE_digit)
  from decode_loop_invariant [OF length_encode this, of 0]
  show ?thesis by (simp add: decode_def length_encode)
qed

section \<open>The validation loop of the GUID decoder\<close>

lemma length_decode_scan: "length (fst (decode_scan d i)) = length d"
proof (induction d i rule: decode_scan.induct)
  case (1 d i)
  then show ?case
    by (subst decode_scan.simps) (auto split: option.splits)
qed

lemma decode_scan_ok:
  "(\<And>k. i \<le> k \<Longrightarrow> k < length d \<Longrightarrow> DECODE (d ! k) \<noteq> None) \<Longrightarrow>
   decode_scan d i = (take i d @ map (the \<circ> DECODE) (drop i d), None)"
proof (induction d i rule: decode_scan.induct)
  case (1 d i)
  show ?case
  proof (cases "i < length d")
    case False
    then show ?thesis by (subst decode_scan.simps) simp
  next
    case True
    with "1.prems" [of i] obtain idx where idx: "DECODE (d ! i) = Some idx" by auto
    have "decode_scan (d[i := idx]) (Suc i)
        = (take (Suc i) (d[i := idx]) @ map (the \<circ> DECODE) (drop (Suc i) (d[i := idx])), None)"
      using True idx "1.prems" by (intro "1.IH") auto
    moreover have "take (Suc i) (d[i := idx]) = take i d @ [idx]"
      using True by (simp add: take_Suc_conv_app_nth)
    moreover have "drop i d = d ! i # drop (Suc i) d"
      using True by (simp add: Cons_nth_drop_Suc)
    ultimately show ?thesis
      using True idx by (subst decode_scan.simps) simp
  qed
qed

lemma decode_scan_bad:
  "i \<le> j \<Longrightarrow> j < length d \<Longrightarrow> DECODE (d ! j) = None \<Longrightarrow>
   (\<And>k. i \<le> k \<Longrightarrow> k < j \<Longrightarrow> DECODE (d ! k) \<noteq> None) \<Longrightarrow>
   decode_scan d i = (take i d @ map (the \<circ> DECODE) (take (j - i) (drop i d)) @ drop j d,
                      Some (InvalidUuidCharacter (d ! j)))"
proof (induction d i rule: decode_scan.induct)
  case (1 d i)
  show ?case
  proof (cases "i = j")
    case True
    with "1.prems" show ?thesis by (subst decode_scan.simps) simp
  next
    case False
    with "1.prems" have lt: "i < j" "i < length d" by auto
    with "1.prems"(4) [of i] obtain idx where idx: "DECODE (d ! i) = Some idx" by auto
    have "decode_scan (d[i := idx]) (Suc i)
        = (take (Suc i) (d[i := idx]) @ map (the \<circ> DECODE) (take (j - Suc i) (drop (Suc i) (d[i := idx])))
             @ drop j (d[i := idx]), Some (InvalidUuidCharacter (d[i := idx] ! j)))"
      using lt idx "1.prems" by (intro "1.IH") auto
    moreover have "take (Suc i) (d[i := idx]) = take i d @ [idx]"
      using lt by (simp add: take_Suc_conv_app_nth)
    moreover have "drop i d = d ! i # drop (Suc i) d"
      using lt by (simp add: Cons_nth_drop_Suc)
    moreover have "j - i = Suc (j - Suc i)" using lt by simp
    ultimately show ?thesis
      using lt idx by (subst decode_scan.simps) simp
  qed
qed

section \<open>GUID text codec: decoding an encoding\<close>

lemma DECODE_index: "x < 32 \<Longrightarrow> DECODE (ENCODE ! unat x) = Some x" for x :: byte
  using DECODE_hit [of "unat x"] by (simp add: word_less_nat_alt)

lemma byte_less_32: "take_bit 5 x = x \<Longrightarrow> x < 32" for x :: byte
  using unat_digit_less [of x] by (simp add: word_less_nat_alt)

lemma less_8_cases:
  "n < 8 \<Longrightarrow> n = 7 \<or> n = 6 \<or> n = 5 \<or> n = 4 \<or> n = 3 \<or> n = 2 \<or> n = 1 \<or> n = (0::nat)"
  by arith

lemma take_bit5_self: "x < 32 \<Longrightarrow> take_bit 5 x = x" for x :: byte
  by (simp add: word_less_nat_alt take_bit_nat_eq_self word_unat_eq_iff unsigned_take_bit_eq)

lemma idx_drop: "3 \<le> j \<Longrightarrow> drop_bit j x < 32" for x :: byte
  by (rule byte_less_32, rule bit_word_eqI) (auto simp add: bit_simps dest: bit_imp_le_length)

lemma idx_mask: "x AND 0x1f < 32" for x :: byte
  by (rule byte_less_32) (simp add: and_1f)

lemma idx_or: "x < 32 \<Longrightarrow> y < 32 \<Longrightarrow> x OR y < 32" for x y :: byte
proof -
  assume "x < 32" "y < 32"
  then have "take_bit 5 x = x" "take_bit 5 y = y"
    by (simp_all add: take_bit5_self)
  then have "take_bit 5 (x OR y) = x OR y" by (simp add: take_bit_or)
  then show ?thesis by (rule byte_less_32)
qed

lemmas idx_less = idx_drop idx_mask idx_or

lemma bit_times2: "bit (x * 2) n \<longleftrightarrow> 0 < n \<and> n < LENGTH('a) \<and> bit x (n - 1)" for x :: "'a::len word"
  using bit_double_iff [of x n] by (auto simp: mult.commute possible_bit_word)

lemma byte_a: "push_bit 3 (drop_bit 3 x) OR drop_bit 2 ((push_bit 2 x AND 0x1f) OR drop_bit 6 y) = x" for x y :: byte
  by (rule bit_word_eqI, simp, drule less_8_cases, elim disjE; simp add: bit_simps and_1f bit_times2 eval_nat_numeral del: push_bit_Suc)

lemma byte_b: "push_bit 6 ((push_bit 2 w AND 0x1f) OR drop_bit 6 x) OR push_bit 1 (drop_bit 1 x AND 0x1f)
     OR drop_bit 4 ((push_bit 4 x AND 0x1f) OR drop_bit 4 y) = x" for w x y :: byte
  by (rule bit_word_eqI, simp, drule less_8_cases, elim disjE; simp add: bit_simps and_1f bit_times2 eval_nat_numeral del: push_bit_Suc)

lemma byte_c: "push_bit 4 ((push_bit 4 w AND 0x1f) OR drop_bit 4 x) OR drop_bit 1 ((push_bit 1 x AND 0x1f) OR drop_bit 7 y) = x"
  for w x y :: byte
  by (rule bit_word_eqI, simp, drule less_8_cases, elim disjE; simp add: bit_simps and_1f bit_times2 eval_nat_numeral del: push_bit_Suc)

lemma byte_d: "push_bit 7 ((push_bit 1 w AND 0x1f) OR drop_bit 7 x) OR push_bit 2 (drop_bit 2 x AND 0x1f)
     OR drop_bit 3 ((push_bit 3 x AND 0x1f) OR drop_bit 5 y) = x" for w x y :: byte
  by (rule bit_word_eqI, simp, drule less_8_cases, elim disjE; simp add: bit_simps and_1f bit_times2 eval_nat_numeral del: push_bit_Suc)

lemma byte_e: "push_bit 5 ((push_bit 3 w AND 0x1f) OR drop_bit 5 x) OR (x AND 0x1f) = x" for w x :: byte
  by (rule bit_word_eqI, simp, drule less_8_cases, elim disjE; simp add: bit_simps and_1f bit_times2 eval_nat_numeral del: push_bit_Suc)

lemma encodeGUID_valid: "x \<in> set (encodeGUID u) \<Longrightarrow> DECODE x \<noteq> None"
  by (auto simp add: encodeGUID_def DECODE_index idx_less simp del: push_bit_Suc)

lemma length_encodeGUID: "length (encodeGUID u) = 16"
  by (simp add: encodeGUID_def)

lemma decode_scan_encodeGUID:
  "decode_scan (encodeGUID u) 0 = (map (the \<circ> DECODE) (encodeGUID u), None)"
  using decode_scan_ok [of 0 "encodeGUID u"] encodeGUID_valid [of _ u] by simp

lemma indices_encodeGUID:
  "map (the \<circ> DECODE) (encodeGUID u) =
     [drop_bit 3 (byte0 u),
      (push_bit 2 (byte0 u) AND 0x1f) OR drop_bit 6 (byte1 u),
      drop_bit 1 (byte1 u) AND 0x1f,
      (push_bit 4 (byte1 u) AND 0x1f) OR drop_bit 4 (byte2 u),
      (push_bit 1 (byte2 u) AND 0x1f) OR drop_bit 7 (byte3 u),
      drop_bit 2 (byte3 u) AND 0x1f,
      (push_bit 3 (byte3 u) AND 0x1f) OR drop_bit 5 (byte4 u),
      byte4 u AND 0x1f,
      drop_bit 3 (byte5 u),
      (push_bit 2 (byte5 u) AND 0x1f) OR drop_bit 6 (byte6 u),
      drop_bit 1 (byte6 u) AND 0x1f,
      (push_bit 4 (byte6 u) AND 0x1f) OR drop_bit 4 (byte7 u),
      (push_bit 1 (byte7 u) AND 0x1f) OR drop_bit 7 (byte8 u),
      drop_bit 2 (byte8 u) AND 0x1f,
      (push_bit 3 (byte8 u) AND 0x1f) OR drop_bit 5 (byte9 u),
      byte9 u AND 0x1f]"
  by (simp add: encodeGUID_def DECODE_index idx_less del: push_bit_Suc)


lemma decodeGUID_of_indices:
  "length d = 16 \<Longrightarrow>
   decode_scan d 0 = ([e0, e1, e2, e3, e4, e5, e6, e7, e8, e9, e10, e11, e12, e13, e14, e15], None) \<Longrightarrow>
   decodeGUID d =
     ([e0, e1, e2, e3, e4, e5, e6, e7, e8, e9, e10, e11, e12, e13, e14, e15],
      GUID (push_bit 3 e0 OR drop_bit 2 e1)
           (push_bit 6 e1 OR push_bit 1 e2 OR drop_bit 4 e3)
           (push_bit 4 e3 OR drop_bit 1 e4)
           (push_bit 7 e4 OR push_bit 2 e5 OR drop_bit 3 e6)
           (push_bit 5 e6 OR e7)
           (push_bit 3 e8 OR drop_bit 2 e9)
           (push_bit 6 e9 OR push_bit 1 e10 OR drop_bit 4 e11)
           (push_bit 4 e11 OR drop_bit 1 e12)
           (push_bit 7 e12 OR push_bit 2 e13 OR drop_bit 3 e14)
           (push_bit 5 e14 OR e15),
      None)"
  by (simp add: decodeGUID_def)

lemma decodeGUID_encodeGUID:
  "decodeGUID (encodeGUID u) = (map (the \<circ> DECODE) (encodeGUID u), u, None)"
proof -
  note scan = decode_scan_encodeGUID [of u, unfolded indices_encodeGUID]
  note dec = decodeGUID_of_indices [OF length_encodeGUID scan]
  show ?thesis
    by (simp only: dec byte_a byte_b byte_c byte_d byte_e indices_encodeGUID GUID.collapse)
qed

section \<open>GUID fields\<close>

lemma and_7f: "x AND 0x7f = take_bit 7 x" for x :: "'a::len word"
  by (simp add: take_bit_eq_mask mask_numeral)

lemma less_exp_take_bit: "x < 2 ^ n \<Longrightarrow> take_bit n x = x" for x :: "'a::len word"
  by (simp add: take_bit_eq_mask less_mask_eq)

lemma bit_below: "x < 2 ^ n \<Longrightarrow> bit x k \<Longrightarrow> k < n" for x :: "'a::len word"
  using less_exp_take_bit [of x n] bit_take_bit_iff [of n x k] by simp

lemma and_80: "push_bit 7 x AND 0x80 = push_bit 7 (take_bit 1 x)" for x :: "'a::len word"
proof -
  have "(0x80 :: 'a word) = push_bit 7 1" by simp
  then have "push_bit 7 x AND 0x80 = push_bit 7 (x AND 1)"
    by (simp only: push_bit_and)
  also have "x AND 1 = take_bit 1 x"
    by (simp add: take_bit_eq_mask)
  finally show ?thesis .
qed

lemma Group_guid_bytes:
  assumes "g \<le> 7"
  shows "Group (guid_bytes g time s host) = g"
proof -
  have "g < 2 ^ 3" using assms by (simp add: word_le_nat_alt word_less_nat_alt)
  then have b: "\<And>k. bit g k \<Longrightarrow> k < 3" by (rule bit_below)
  show ?thesis
    unfolding Group_def guid_bytes_def GUID.sel and_1f
    by (rule bit_word_eqI) (auto simp add: bit_simps simp del: push_bit_Suc dest: b)
qed

lemma HostID_guid_bytes:
  assumes "host < 2 ^ 7"
  shows "HostID (guid_bytes g time s host) = host"
proof -
  have b: "\<And>k. bit host k \<Longrightarrow> k < 7" using assms by (rule bit_below)
  show ?thesis
    unfolding HostID_def guid_bytes_def GUID.sel and_80 and_7f
    by (rule bit_word_eqI) (auto simp add: bit_simps simp del: push_bit_Suc dest: b)
qed

lemma Seq_guid_bytes:
  assumes "s < 2 ^ 17" "host < 2 ^ 7"
  shows "Seq_GUID (guid_bytes g time s host) = s"
proof -
  have b: "\<And>k. bit host k \<Longrightarrow> k < 7" using assms(2) by (rule bit_below)
  have c: "\<And>k. bit s k \<Longrightarrow> k < 17" using assms(1) by (rule bit_below)
  have b7: "\<not> bit host 7" using b [of 7] by auto
  show ?thesis
    unfolding Seq_GUID_def guid_bytes_def GUID.sel
  proof (rule bit_word_eqI)
    fix n assume n: "n < LENGTH(64)"
    let ?L = "push_bit 9 (ucast (ucast (signed_drop_bit 9 s) :: byte) :: int64) OR
               push_bit 1 (ucast (ucast (signed_drop_bit 1 s) :: byte)) OR
               signed_drop_bit 7 (ucast (ucast ((push_bit 7 s AND 0x80) OR host) :: byte))"
    consider "n = 0" | m where "n = 1 + m" "m < 8" | m where "n = 9 + m" "m < 8" | m where "n = 17 + m"
      by atomize_elim arith
    then show "bit ?L n = bit s n"
    proof cases
      case 1
      then show ?thesis
        by (simp add: bit_simps bit_sdb64 b7 del: push_bit_Suc bit_0)
    next
      case 2
      then show ?thesis
        by (simp add: bit_simps bit_sdb64 min_def del: push_bit_Suc)
    next
      case 3
      then show ?thesis
        by (simp add: bit_simps bit_sdb64 min_def del: push_bit_Suc)
    next
      case 4
      then have "\<not> bit s (17 + m)" "\<not> bit s 63" using c [of n] c [of 63] by auto
      with 4 n show ?thesis
        by (simp add: bit_simps bit_sdb64 min_def del: push_bit_Suc)
    qed
  qed
qed

lemma Time_guid_bytes:
  assumes "time < 2 ^ 53"
  shows "Time_GUID (guid_bytes g time s host) = time"
proof -
  have c: "\<And>k. bit time k \<Longrightarrow> k < 53" using assms by (rule bit_below)
  show ?thesis
    unfolding Time_GUID_def guid_bytes_def GUID.sel
  proof (rule bit_word_eqI)
    fix n assume n: "n < LENGTH(64)"
    let ?b0 = "push_bit 5 g OR (ucast (signed_drop_bit 48 time) AND 0x1f) :: byte"
    let ?L = "ucast (ucast time :: byte) OR push_bit 8 (ucast (ucast (signed_drop_bit 8 time) :: byte))
       OR push_bit 16 (ucast (ucast (signed_drop_bit 16 time) :: byte))
       OR push_bit 24 (ucast (ucast (signed_drop_bit 24 time) :: byte))
       OR push_bit 32 (ucast (ucast (signed_drop_bit 32 time) :: byte))
       OR push_bit 40 (ucast (ucast (signed_drop_bit 40 time) :: byte))
       OR push_bit 48 (ucast (?b0 AND 0x1f)) :: int64"
    consider m where "n = m" "m < 8" | m where "n = 8 + m" "m < 8" | m where "n = 16 + m" "m < 8"
      | m where "n = 24 + m" "m < 8" | m where "n = 32 + m" "m < 8" | m where "n = 40 + m" "m < 8"
      | m where "n = 48 + m" "m < 5" | m where "n = 53 + m"
      by atomize_elim arith
    then show "bit ?L n = bit time n"
    proof cases
      case 8
      then have "\<not> bit time (53 + m)" "\<not> bit time 63" using c [of n] c [of 63] by auto
      with 8 n show ?thesis
        by (simp add: bit_simps bit_sdb64 min_def and_1f del: push_bit_Suc)
    qed (simp_all add: bit_simps bit_sdb64 min_def and_1f del: push_bit_Suc)
  qed
qed

section \<open>Evaluating the constants and the codec on concrete inputs\<close>

lemma WID_SEQ_eq: "WID_SEQ = 22"
  by (simp add: WID_SEQ_def bitWidth_def MAX_SEQ_def binary_digits.simps)

lemma WID_HOST_eq: "WID_HOST = 8"
  by (simp add: WID_HOST_def bitWidth_def MAX_HOST_def binary_digits.simps)

lemma encode_loop_numeral:
  "encode_loop (numeral k) i bytes =
     encode_loop (pred_numeral k) (signed_drop_bit 5 i) (bytes[pred_numeral k := ENCODE ! unat (i AND 0x1f)])"
  by (simp add: numeral_eq_Suc)

lemma encode_unfold:
  "encode i =
     [ENCODE ! unat (signed_drop_bit 60 i AND 0x1f), ENCODE ! unat (signed_drop_bit 55 i AND 0x1f),
      ENCODE ! unat (signed_drop_bit 50 i AND 0x1f), ENCODE ! unat (signed_drop_bit 45 i AND 0x1f),
      ENCODE ! unat (signed_drop_bit 40 i AND 0x1f), ENCODE ! unat (signed_drop_bit 35 i AND 0x1f),
      ENCODE ! unat (signed_drop_bit 30 i AND 0x1f), ENCODE ! unat (signed_drop_bit 25 i AND 0x1f),
      ENCODE ! unat (signed_drop_bit 20 i AND 0x1f), ENCODE ! unat (signed_drop_bit 15 i AND 0x1f),
      ENCODE ! unat (signed_drop_bit 10 i AND 0x1f), ENCODE ! unat (signed_drop_bit 5 i AND 0x1f),
      ENCODE ! unat (i AND 0x1f)]"
proof -
  have "replicate 13 (0::byte) = [0, 0, 0, 0, 0, 0, 0, 0, 0, 0, 0, 0, 0]"
    by (simp add: numeral_eq_Suc)
  then show ?thesis
    by (simp add: encode_def encode_loop_numeral)
qed

lemma encode_scenario_A: "encode 1874108980683343107 = map of_char ''buarmgbaaabid''"
  by (simp add: encode_unfold ENCODE_def)

lemma DECODE_a: "DECODE 97 = Some 0"
  using DECODE_hit [of 0] by (simp add: ENCODE_def)

lemma DECODE_b: "DECODE 98 = Some 1"
  using DECODE_hit [of 1] by (simp add: ENCODE_def)

lemma DECODE_q: "DECODE 113 = Some 16"
  using DECODE_hit [of 16] by (simp add: ENCODE_def)

lemma MAX_GROUP_byte: "(ucast MAX_GROUP :: byte) = 7"
  by (simp add: MAX_GROUP_def)

section \<open>The reduced sequence number\<close>










lemma host8_less: "h \<le> MAX_HOST \<Longrightarrow> h < 2 ^ 8"
  by (simp add: MAX_HOST_def word_le_nat_alt word_less_nat_alt)

lemma host7_less: "h \<le> MAX_HOST_p2 \<Longrightarrow> h < 2 ^ 7"
  by (simp add: MAX_HOST_p2_def word_le_nat_alt word_less_nat_alt)










section \<open>The host field of generated identifiers\<close>

lemma getHostID_le: "getHostID env_id pod_id ip_last rnd \<le> MAX_HOST"
  by (simp add: getHostID_def word_and_le1 split: option.splits)

lemma getHostID_p2_le: "getHostID_p2 env_id pod_id ip_last rnd \<le> MAX_HOST_p2"
  by (simp add: getHostID_p2_def word_and_le1 split: option.splits)

lemma Host_New_bounded:
  assumes "var_HOST_ID g \<le> MAX_HOST"
  shows "Host (fst (New now g)) = var_HOST_ID g"
proof -
  have "var_HOST_ID g < 2 ^ 8"
    using assms by (rule host8_less)
  then have b: "\<And>k. bit (var_HOST_ID g) k \<Longrightarrow> k < 8" by (rule bit_below)
  have "x AND 0xff = take_bit 8 x" for x :: int64
    by (simp add: take_bit_eq_mask mask_numeral)
  then show ?thesis
    unfolding Host_def New_def Let_def fst_conv SUID.sel WID_SEQ_eq WID_HOST_eq MAX_HOST_def
    by (intro bit_word_eqI) (auto simp: bit_simps dest: b)
qed

lemma HostID_NewGUID_bounded:
  assumes "var_HOST_ID_p2 h \<le> MAX_HOST_p2" and "NewGUID grps now h = Returned (u, h')"
  shows "HostID u = var_HOST_ID_p2 h" and "var_HOST_ID_p2 h' = var_HOST_ID_p2 h"
proof -
  have "var_HOST_ID_p2 h < 2 ^ 7"
    using assms(1) by (rule host7_less)
  then show "HostID u = var_HOST_ID_p2 h"
    using assms(2) by (auto simp: NewGUID_def Let_def HostID_guid_bytes split: if_splits)
  show "var_HOST_ID_p2 h' = var_HOST_ID_p2 h"
    using assms(2) by (auto simp: NewGUID_def Let_def split: if_splits)
qed

lemma HostID_NewGUID:
  assumes "NewGUID grps now g = Returned (u, g')"
  shows "HostID u = var_HOST_ID_p2 g AND 0x7f"
proof -
  have "HostID (guid_bytes grp now s h) = h AND 0x7f" for grp s h
    unfolding HostID_def guid_bytes_def GUID.sel and_80 and_7f
    by (rule bit_word_eqI) (auto simp add: bit_simps simp del: push_bit_Suc)
  with assms show ?thesis
    by (auto simp: NewGUID_def Let_def split: if_splits)
qed

section \<open>Rejecting malformed text\<close>

lemma decode_loop_bad:
  "i \<le> j \<Longrightarrow> j < 13 \<Longrightarrow> DECODE (data ! j) = None \<Longrightarrow>
   (\<And>k. i \<le> k \<Longrightarrow> k < j \<Longrightarrow> DECODE (data ! k) \<noteq> None) \<Longrightarrow>
   decode_loop data i v = (0, Some (InvalidSuidCharacter (data ! j)))"
proof (induction data i v rule: decode_loop.induct)
  case (1 data i v)
  show ?case
  proof (cases "i = j")
    case True
    with "1.prems" show ?thesis by (subst decode_loop.simps) simp
  next
    case False
    with "1.prems" have lt: "i < j" "i < 13" by auto
    with "1.prems"(4) [of i] obtain idx where idx: "DECODE (data ! i) = Some idx" by auto
    have "decode_loop data (Suc i) (push_bit 5 v OR ucast idx) = (0, Some (InvalidSuidCharacter (data ! j)))"
      using lt idx "1.prems" by (intro "1.IH") auto
    then show ?thesis
      using lt idx by (subst decode_loop.simps) simp
  qed
qed

lemma decode_loop_ok:
  "(\<And>k. i \<le> k \<Longrightarrow> k < 13 \<Longrightarrow> DECODE (data ! k) \<noteq> None) \<Longrightarrow> snd (decode_loop data i v) = None"
proof (induction data i v rule: decode_loop.induct)
  case (1 data i v)
  show ?case
  proof (cases "i < 13")
    case False
    then show ?thesis by (subst decode_loop.simps) simp
  next
    case True
    with "1.prems" [of i] obtain idx where idx: "DECODE (data ! i) = Some idx" by auto
    have "snd (decode_loop data (Suc i) (push_bit 5 v OR ucast idx)) = None"
      using True idx "1.prems" by (intro "1.IH") auto
    then show ?thesis
      using True idx by (subst decode_loop.simps) simp
  qed
qed

lemma first_invalid:
  assumes "\<not> set d \<subseteq> set ENCODE"
  shows "\<exists>j<length d. DECODE (d ! j) = None \<and> (\<forall>k<j. DECODE (d ! k) \<noteq> None)"
proof -
  from assms obtain c where "c \<in> set d" "c \<notin> set ENCODE" by auto
  then obtain k0 where k0: "k0 < length d" "DECODE (d ! k0) = None"
    by (metis in_set_conv_nth DECODE_miss)
  define j where "j = (LEAST k. k < length d \<and> DECODE (d ! k) = None)"
  have j: "j < length d \<and> DECODE (d ! j) = None"
    unfolding j_def using k0 by (intro LeastI [of "\<lambda>k. k < length d \<and> DECODE (d ! k) = None" k0]) simp
  have "DECODE (d ! k) \<noteq> None" if "k < j" for k
  proof
    assume "DECODE (d ! k) = None"
    moreover have "k < length d" using that j by simp
    ultimately have "j \<le> k" unfolding j_def by (intro Least_le) simp
    with that show False by simp
  qed
  with j show ?thesis by blast
qed

lemma all_valid: "set d \<subseteq> set ENCODE \<Longrightarrow> k < length d \<Longrightarrow> DECODE (d ! k) \<noteq> None"
  by (auto simp: DECODE_None_iff)

lemma decode_ok_iff: "snd (decode d) = None \<longleftrightarrow> length d = 13 \<and> set d \<subseteq> set ENCODE"
proof (cases "length d = 13")
  case False
  then show ?thesis by (simp add: decode_def)
next
  case len: True
  show ?thesis
  proof (cases "set d \<subseteq> set ENCODE")
    case True
    then show ?thesis
      using len decode_loop_ok [of 0 d 0] all_valid [of d] by (simp add: decode_def)
  next
    case False
    then obtain j where "j < length d" "DECODE (d ! j) = None" "\<And>k. k < j \<Longrightarrow> DECODE (d ! k) \<noteq> None"
      using first_invalid [of d] by blast
    with len False show ?thesis
      using decode_loop_bad [of 0 j d 0] by (simp add: decode_def)
  qed
qed

lemma decode_invalid_char:
  assumes "length d = 13" "\<not> set d \<subseteq> set ENCODE"
  shows "\<exists>c\<in>set d - set ENCODE. decode d = (0, Some (InvalidSuidCharacter c))"
proof -
  from assms(2) obtain j where j: "j < length d" "DECODE (d ! j) = None" "\<And>k. k < j \<Longrightarrow> DECODE (d ! k) \<noteq> None"
    using first_invalid [of d] by blast
  then have "decode d = (0, Some (InvalidSuidCharacter (d ! j)))"
    using assms(1) decode_loop_bad [of 0 j d 0] by (simp add: decode_def)
  moreover have "d ! j \<in> set d - set ENCODE"
    using j by (simp add: DECODE_None_iff)
  ultimately show ?thesis by blast
qed

lemma decode_error_zero: "snd (decode d) \<noteq> None \<Longrightarrow> fst (decode d) = 0"
proof (cases "length d = 13")
  case False
  then show ?thesis by (simp add: decode_def)
next
  case True
  assume "snd (decode d) \<noteq> None"
  with True have "\<not> set d \<subseteq> set ENCODE" using decode_ok_iff [of d] by simp
  with True decode_invalid_char [of d] show ?thesis by auto
qed

lemma decodeGUID_length: "length t \<noteq> 16 \<Longrightarrow> decodeGUID t = (t, zero_GUID, Some InvalidLength)"
  by (simp add: decodeGUID_def)

lemma decodeGUID_valid:
  assumes "length t = 16" "set t \<subseteq> set ENCODE"
  shows "fst (decodeGUID t) = map (the \<circ> DECODE) t" and "snd (snd (decodeGUID t)) = None"
proof -
  have "decode_scan t 0 = (map (the \<circ> DECODE) t, None)"
    using decode_scan_ok [of 0 t] all_valid [OF assms(2)] by simp
  with assms(1) show "fst (decodeGUID t) = map (the \<circ> DECODE) t" and "snd (snd (decodeGUID t)) = None"
    by (simp_all add: decodeGUID_def)
qed

lemma decodeGUID_invalid:
  assumes "length t = 16" "j < 16" "DECODE (t ! j) = None" "\<And>k. k < j \<Longrightarrow> DECODE (t ! k) \<noteq> None"
  shows "decodeGUID t = (map (the \<circ> DECODE) (take j t) @ drop j t, zero_GUID,
                         Some (InvalidUuidCharacter (t ! j)))"
proof -
  have "decode_scan t 0 = (map (the \<circ> DECODE) (take j t) @ drop j t, Some (InvalidUuidCharacter (t ! j)))"
    using decode_scan_bad [of 0 j t] assms by simp
  with assms(1) show ?thesis
    by (simp add: decodeGUID_def)
qed

lemma decodeGUID_ok_iff:
  "snd (snd (decodeGUID t)) = None \<longleftrightarrow> length t = 16 \<and> set t \<subseteq> set ENCODE"
proof (cases "length t = 16")
  case False
  then show ?thesis by (simp add: decodeGUID_length)
next
  case len: True
  show ?thesis
  proof (cases "set t \<subseteq> set ENCODE")
    case True
    with len show ?thesis by (simp add: decodeGUID_valid)
  next
    case False
    then obtain j where "j < length t" "DECODE (t ! j) = None" "\<And>k. k < j \<Longrightarrow> DECODE (t ! k) \<noteq> None"
      using first_invalid [of t] by blast
    with len False show ?thesis
      using decodeGUID_invalid [of t j] by simp
  qed
qed

lemma decodeGUID_invalid_char:
  assumes "length t = 16" "\<not> set t \<subseteq> set ENCODE"
  shows "\<exists>c\<in>set t - set ENCODE. snd (decodeGUID t) = (zero_GUID, Some (InvalidUuidCharacter c))"
proof -
  from assms(2) obtain j where j: "j < length t" "DECODE (t ! j) = None" "\<And>k. k < j \<Longrightarrow> DECODE (t ! k) \<noteq> None"
    using first_invalid [of t] by blast
  then have "snd (decodeGUID t) = (zero_GUID, Some (InvalidUuidCharacter (t ! j)))"
    using assms(1) decodeGUID_invalid [of t j] by simp
  moreover have "t ! j \<in> set t - set ENCODE"
    using j by (simp add: DECODE_None_iff)
  ultimately show ?thesis by blast
qed

lemma decodeGUID_error_zero: "snd (snd (decodeGUID t)) \<noteq> None \<Longrightarrow> fst (snd (decodeGUID t)) = zero_GUID"
proof (cases "length t = 16")
  case False
  then show ?thesis by (simp add: decodeGUID_length)
next
  case True
  assume "snd (snd (decodeGUID t)) \<noteq> None"
  with True have "\<not> set t \<subseteq> set ENCODE" using decodeGUID_ok_iff [of t] by simp
  with True decodeGUID_invalid_char [of t] show ?thesis by auto
qed

lemma ENCODE_ge_49: "c \<in> set ENCODE \<Longrightarrow> 49 \<le> c"
  by (auto simp: ENCODE_def)

lemma DECODE_index_less: "DECODE c = Some k \<Longrightarrow> k < 32"
proof -
  assume "DECODE c = Some k"
  then obtain i where "i < 32" "k = of_nat i" by (auto simp: DECODE_Some_iff)
  then show ?thesis
    by (simp add: word_less_nat_alt unat_of_nat take_bit_nat_eq_self)
qed

lemma DECODE_changes: "c \<in> set ENCODE \<Longrightarrow> the (DECODE c) \<noteq> c"
proof -
  assume c: "c \<in> set ENCODE"
  then obtain k where k: "DECODE c = Some k"
    using DECODE_None_iff [of c] by auto
  from DECODE_index_less [OF k] ENCODE_ge_49 [OF c] have "k < c"
    by (simp add: word_less_nat_alt word_le_nat_alt)
  with k show ?thesis by simp
qed

section \<open>Text order and value order\<close>

lemma length_digits: "length (digits w n v) = n"
  by (induction n) auto

lemma digits_nth: "k < n \<Longrightarrow> digits w n v ! k = (v div 2 ^ (w * (n - 1 - k))) mod 2 ^ w"
proof (induction n arbitrary: k)
  case 0
  then show ?case by simp
next
  case (Suc n)
  then show ?case by (cases k) auto
qed

lemma top_digit: "(v div 2 ^ (w * n)) mod 2 ^ w = (v mod 2 ^ (w * Suc n)) div 2 ^ (w * n)"
  for v :: nat
  using div_exp_mod_exp_eq [of v "w * n" w] by (simp add: add.commute)

lemma low_part: "(v mod 2 ^ (w * Suc n)) mod 2 ^ (w * n) = v mod 2 ^ (w * n)" for v :: nat
  by (simp add: mod_exp_eq min_def)

lemma digits_cong: "a mod 2 ^ (w * n) = b mod 2 ^ (w * n) \<Longrightarrow> digits w n a = digits w n b"
proof (induction n)
  case 0
  then show ?case by simp
next
  case (Suc n)
  from Suc.prems have "a mod 2 ^ (w * n) = b mod 2 ^ (w * n)"
    by (metis low_part)
  with Suc show ?case by (simp add: top_digit del: mult_Suc_right)
qed

lemma digits_less:
  "a mod 2 ^ (w * n) < b mod 2 ^ (w * n) \<Longrightarrow> ord_class.lexordp (digits w n a) (digits w n b)"
proof (induction n)
  case 0
  then show ?case by simp
next
  case (Suc n)
  let ?P = "2 ^ (w * n) :: nat"
  let ?A = "a mod 2 ^ (w * Suc n)" and ?B = "b mod 2 ^ (w * Suc n)"
  have le: "?A div ?P \<le> ?B div ?P"
    using Suc.prems by (intro div_le_mono) simp
  show ?case
  proof (cases "?A div ?P < ?B div ?P")
    case True
    then show ?thesis by (simp add: top_digit del: mult_Suc_right)
  next
    case False
    with le have eq: "?A div ?P = ?B div ?P" by simp
    have "?A = ?P * (?A div ?P) + ?A mod ?P" "?B = ?P * (?B div ?P) + ?B mod ?P"
      by simp_all
    with eq Suc.prems have "?A mod ?P < ?B mod ?P" by (metis nat_add_left_cancel_less)
    then have "a mod ?P < b mod ?P" by (simp only: low_part)
    then have "ord_class.lexordp (digits w n a) (digits w n b)" by (rule Suc.IH)
    with eq show ?thesis by (simp add: top_digit del: mult_Suc_right)
  qed
qed

lemma digits_le_iff:
  "ord_class.lexordp_eq (digits w n a) (digits w n b) \<longleftrightarrow> a mod 2 ^ (w * n) \<le> b mod 2 ^ (w * n)"
proof
  assume le: "a mod 2 ^ (w * n) \<le> b mod 2 ^ (w * n)"
  show "ord_class.lexordp_eq (digits w n a) (digits w n b)"
  proof (cases "a mod 2 ^ (w * n) = b mod 2 ^ (w * n)")
    case True
    then have "digits w n a = digits w n b" by (rule digits_cong)
    then show ?thesis by (simp add: lexordp_eq_refl)
  next
    case False
    with le have "a mod 2 ^ (w * n) < b mod 2 ^ (w * n)" by simp
    then show ?thesis by (intro lexordp_into_lexordp_eq digits_less)
  qed
next
  assume l: "ord_class.lexordp_eq (digits w n a) (digits w n b)"
  show "a mod 2 ^ (w * n) \<le> b mod 2 ^ (w * n)"
  proof (rule ccontr)
    assume "\<not> a mod 2 ^ (w * n) \<le> b mod 2 ^ (w * n)"
    then have "ord_class.lexordp (digits w n b) (digits w n a)" by (intro digits_less) simp
    with l show False by (simp add: lexordp_conv_lexordp_eq)
  qed
qed

lemma digits_append:
  assumes "y < 2 ^ (w * n)"
  shows "digits w (m + n) (x * 2 ^ (w * n) + y) = digits w m x @ digits w n y"
proof (induction m)
  case 0
  have "(x * 2 ^ (w * n) + y) mod 2 ^ (w * n) = y mod 2 ^ (w * n)" by simp
  then have "digits w n (x * 2 ^ (w * n) + y) = digits w n y" by (rule digits_cong)
  then show ?case by simp
next
  case (Suc m)
  have "(x * 2 ^ (w * n) + y) div 2 ^ (w * (m + n)) = x div 2 ^ (w * m)"
  proof -
    have "(2::nat) ^ (w * (m + n)) = 2 ^ (w * n) * 2 ^ (w * m)"
      by (simp add: power_add distrib_left)
    then have "(x * 2 ^ (w * n) + y) div 2 ^ (w * (m + n)) = ((x * 2 ^ (w * n) + y) div 2 ^ (w * n)) div 2 ^ (w * m)"
      by (simp only: div_mult2_eq)
    also have "(x * 2 ^ (w * n) + y) div 2 ^ (w * n) = x" using assms by simp
    finally show ?thesis .
  qed
  with Suc show ?case by simp
qed

lemma lexordp_eq_map_unat:
  "ord_class.lexordp_eq (map unat xs) (map unat ys) \<longleftrightarrow> ord_class.lexordp_eq xs ys" for xs ys :: "'a::len word list"
proof (induction xs arbitrary: ys)
  case Nil
  then show ?case by simp
next
  case (Cons x xs)
  then show ?case by (cases ys) (auto simp: word_less_nat_alt)
qed

lemma nonneg_top_bit: "0 \<le>s v \<Longrightarrow> \<not> bit v 63" for v :: int64
  using bit_last_iff [of v] by (simp add: word_sle_eq)

lemma sdb_nonneg: "0 \<le>s v \<Longrightarrow> signed_drop_bit s v = drop_bit s v" for v :: int64
proof (rule bit_word_eqI)
  fix n assume "0 \<le>s v" "n < LENGTH(64)"
  then have "\<not> bit v 63" by (simp add: nonneg_top_bit)
  moreover have "\<not> bit v (s + n)" if "64 \<le> s + n"
    using that bit_imp_le_length [of v "s + n"] by auto
  moreover have "s + n < 63 \<or> s + n = 63 \<or> 64 \<le> s + n" by arith
  ultimately show "bit (signed_drop_bit s v) n \<longleftrightarrow> bit (drop_bit s v) n"
    using \<open>n < LENGTH(64)\<close> by (auto simp: bit_sdb64 bit_drop_bit_eq min_def add.commute)
qed

lemma unat_digit: "unat (take_bit 5 (drop_bit s v)) = (unat v div 2 ^ s) mod 2 ^ 5" for v :: int64
proof -
  have "unat (take_bit 5 (drop_bit s v)) = take_bit 5 (drop_bit s (unat v))"
    by (simp only: unsigned_take_bit_eq unat_drop_bit_eq)
  also have "\<dots> = (unat v div 2 ^ s) mod 2 ^ 5"
    by (simp only: take_bit_eq_mod drop_bit_eq_div)
  finally show ?thesis .
qed

lemma unat_ucast_digit: "unat (ucast (take_bit 5 x) :: byte) = unat (take_bit 5 x)" for x :: int64
proof -
  have "unat (take_bit 5 x) < 2 ^ 8" using unat_digit_less [of x] by simp
  then show ?thesis
    by (simp add: unsigned_ucast_eq take_bit_nat_eq_self del: unsigned_take_bit_eq)
qed

lemma encode_indices:
  assumes "0 \<le>s v"
  shows "map (unat \<circ> the \<circ> DECODE) (encode v) = digits 5 13 (unat v)"
proof (rule nth_equalityI)
  show "length (map (unat \<circ> the \<circ> DECODE) (encode v)) = length (digits 5 13 (unat v))"
    by (simp add: length_encode length_digits)
next
  fix k assume "k < length (map (unat \<circ> the \<circ> DECODE) (encode v))"
  then have k: "k < 13" by (simp add: length_encode)
  then have "map (unat \<circ> the \<circ> DECODE) (encode v) ! k
      = unat (ucast (take_bit 5 (signed_drop_bit (5 * (12 - k)) v)) :: byte)"
    by (simp add: length_encode encode_nth DECODE_digit)
  also have "\<dots> = (unat v div 2 ^ (5 * (12 - k))) mod 2 ^ 5"
    by (simp only: unat_ucast_digit sdb_nonneg [OF assms] unat_digit)
  also have "\<dots> = digits 5 13 (unat v) ! k"
    using k by (simp add: digits_nth)
  finally show "map (unat \<circ> the \<circ> DECODE) (encode v) ! k = digits 5 13 (unat v) ! k" .
qed

lemma suid_text_order:
  assumes "0 \<le>s a" "0 \<le>s b"
  shows "a \<le>s b \<longleftrightarrow>
    ord_class.lexordp_eq (map (unat \<circ> the \<circ> DECODE) (encode a)) (map (unat \<circ> the \<circ> DECODE) (encode b))"
proof -
  have u: "unat x mod 2 ^ (5 * 13) = unat x" for x :: int64
  proof -
    have "unat x < 2 ^ 64" using unsigned_less [of x, where ?'a = nat] by simp
    then have "unat x < 2 ^ (5 * 13)" by simp
    then show ?thesis by (rule mod_less)
  qed
  have s: "sint x = uint x" if "0 \<le>s x" for x :: int64
    using nonneg_top_bit [OF that]
    by (intro bit_eqI) (auto simp: bit_sint_iff bit_uint_iff dest: bit_imp_le_length)
  have "a \<le>s b \<longleftrightarrow> uint a \<le> uint b"
    by (simp only: word_sle_eq s [OF assms(1)] s [OF assms(2)])
  also have "\<dots> \<longleftrightarrow> a \<le> b" by (simp only: word_le_def)
  also have "\<dots> \<longleftrightarrow> unat a \<le> unat b" by (simp only: word_le_nat_alt)
  finally have "a \<le>s b \<longleftrightarrow> unat a mod 2 ^ (5 * 13) \<le> unat b mod 2 ^ (5 * 13)"
    by (simp only: u)
  then show ?thesis
    by (simp only: encode_indices [OF assms(1)] encode_indices [OF assms(2)] digits_le_iff)
qed

lemma less_5_cases: "n < 5 \<Longrightarrow> n = 4 \<or> n = 3 \<or> n = 2 \<or> n = 1 \<or> n = (0::nat)"
  by arith

lemma unat_slice:
  "unat (take_bit k (drop_bit s v)) = (unat v div 2 ^ s) mod 2 ^ k" for v :: "'a::len word"
proof -
  have "unat (take_bit k (drop_bit s v)) = take_bit k (drop_bit s (unat v))"
    by (simp only: unsigned_take_bit_eq unat_drop_bit_eq)
  also have "\<dots> = (unat v div 2 ^ s) mod 2 ^ k"
    by (simp only: take_bit_eq_mod drop_bit_eq_div)
  finally show ?thesis .
qed

lemma unat_ucast_byte: "unat (ucast e :: 64 word) = unat e" for e :: byte
  by (simp add: unsigned_ucast_eq take_bit_nat_eq_self order_less_trans [OF unsigned_less])

lemma slice_digit:
  fixes e :: byte and W :: "64 word"
  assumes "\<And>n. k \<le> n \<Longrightarrow> \<not> bit e n" and "\<And>n. n < k \<Longrightarrow> bit e n = bit W (s + n)"
  shows "unat e = (unat W div 2 ^ s) mod 2 ^ k"
proof -
  have "ucast e = take_bit k (drop_bit s W)"
  proof (rule bit_word_eqI)
    fix n assume "n < LENGTH(64)"
    show "bit (ucast e :: 64 word) n = bit (take_bit k (drop_bit s W)) n"
    proof (cases "n < k")
      case True
      with assms(2) [of n] show ?thesis
        using bit_imp_le_length [of e n] bit_imp_le_length [of W "s + n"]
        by (auto simp: bit_ucast_iff bit_take_bit_iff bit_drop_bit_eq add.commute)
    next
      case False
      with assms(1) [of n] show ?thesis
        by (simp add: bit_ucast_iff bit_take_bit_iff)
    qed
  qed
  then have "unat (ucast e :: 64 word) = unat (take_bit k (drop_bit s W))" by simp
  then show ?thesis by (simp only: unat_ucast_byte unat_slice)
qed

lemma digits_8:
  "digits w 8 v = [(v div 2 ^ (w * 7)) mod 2 ^ w, (v div 2 ^ (w * 6)) mod 2 ^ w, (v div 2 ^ (w * 5)) mod 2 ^ w,
     (v div 2 ^ (w * 4)) mod 2 ^ w, (v div 2 ^ (w * 3)) mod 2 ^ w, (v div 2 ^ (w * 2)) mod 2 ^ w,
     (v div 2 ^ (w * 1)) mod 2 ^ w, (v div 2 ^ (w * 0)) mod 2 ^ w]"
  by (simp add: numeral_eq_Suc)

lemma digits_5:
  "digits w 5 v = [(v div 2 ^ (w * 4)) mod 2 ^ w, (v div 2 ^ (w * 3)) mod 2 ^ w, (v div 2 ^ (w * 2)) mod 2 ^ w,
     (v div 2 ^ (w * 1)) mod 2 ^ w, (v div 2 ^ (w * 0)) mod 2 ^ w]"
  by (simp add: numeral_eq_Suc)

lemma index_top_bits: "e < 32 \<Longrightarrow> 5 \<le> n \<Longrightarrow> \<not> bit e n" for e :: byte
  using bit_below [of e 5 n] by auto

lemma byte_top_bits: "8 \<le> n \<Longrightarrow> \<not> bit e n" for e :: byte
  using bit_imp_le_length [of e n] by auto

lemma half_index_0:
  "unat (drop_bit 3 xa) = (unat (half_word xa xb xc xd xe) div 2 ^ (5 * 7)) mod 2 ^ 5"
proof (rule slice_digit)
  show "\<not> bit (drop_bit 3 xa) n" if "5 \<le> n" for n
    using that by (intro index_top_bits) (simp_all add: idx_less del: push_bit_Suc)
  show "bit (drop_bit 3 xa) n = bit (half_word xa xb xc xd xe) (5 * 7 + n)" if "n < 5" for n
    using less_5_cases [OF that]
    by (elim disjE;
        simp add: half_word_def bit_simps and_1f bit_times2 byte_top_bits eval_nat_numeral del: push_bit_Suc)
qed

lemma half_index_1:
  "unat ((push_bit 2 xa AND 0x1f) OR drop_bit 6 xb) = (unat (half_word xa xb xc xd xe) div 2 ^ (5 * 6)) mod 2 ^ 5"
proof (rule slice_digit)
  show "\<not> bit ((push_bit 2 xa AND 0x1f) OR drop_bit 6 xb) n" if "5 \<le> n" for n
    using that by (intro index_top_bits) (simp_all add: idx_less del: push_bit_Suc)
  show "bit ((push_bit 2 xa AND 0x1f) OR drop_bit 6 xb) n = bit (half_word xa xb xc xd xe) (5 * 6 + n)" if "n < 5" for n
    using less_5_cases [OF that]
    by (elim disjE;
        simp add: half_word_def bit_simps and_1f bit_times2 byte_top_bits eval_nat_numeral del: push_bit_Suc)
qed

lemma half_index_2:
  "unat (drop_bit 1 xb AND 0x1f) = (unat (half_word xa xb xc xd xe) div 2 ^ (5 * 5)) mod 2 ^ 5"
proof (rule slice_digit)
  show "\<not> bit (drop_bit 1 xb AND 0x1f) n" if "5 \<le> n" for n
    using that by (intro index_top_bits) (simp_all add: idx_less del: push_bit_Suc)
  show "bit (drop_bit 1 xb AND 0x1f) n = bit (half_word xa xb xc xd xe) (5 * 5 + n)" if "n < 5" for n
    using less_5_cases [OF that]
    by (elim disjE;
        simp add: half_word_def bit_simps and_1f bit_times2 byte_top_bits eval_nat_numeral del: push_bit_Suc)
qed

lemma half_index_3:
  "unat ((push_bit 4 xb AND 0x1f) OR drop_bit 4 xc) = (unat (half_word xa xb xc xd xe) div 2 ^ (5 * 4)) mod 2 ^ 5"
proof (rule slice_digit)
  show "\<not> bit ((push_bit 4 xb AND 0x1f) OR drop_bit 4 xc) n" if "5 \<le> n" for n
    using that by (intro index_top_bits) (simp_all add: idx_less del: push_bit_Suc)
  show "bit ((push_bit 4 xb AND 0x1f) OR drop_bit 4 xc) n = bit (half_word xa xb xc xd xe) (5 * 4 + n)" if "n < 5" for n
    using less_5_cases [OF that]
    by (elim disjE;
        simp add: half_word_def bit_simps and_1f bit_times2 byte_top_bits eval_nat_numeral del: push_bit_Suc)
qed

lemma half_index_4:
  "unat ((push_bit 1 xc AND 0x1f) OR drop_bit 7 xd) = (unat (half_word xa xb xc xd xe) div 2 ^ (5 * 3)) mod 2 ^ 5"
proof (rule slice_digit)
  show "\<not> bit ((push_bit 1 xc AND 0x1f) OR drop_bit 7 xd) n" if "5 \<le> n" for n
    using that by (intro index_top_bits) (simp_all add: idx_less del: push_bit_Suc)
  show "bit ((push_bit 1 xc AND 0x1f) OR drop_bit 7 xd) n = bit (half_word xa xb xc xd xe) (5 * 3 + n)" if "n < 5" for n
    using less_5_cases [OF that]
    by (elim disjE;
        simp add: half_word_def bit_simps and_1f bit_times2 byte_top_bits eval_nat_numeral del: push_bit_Suc)
qed

lemma half_index_5:
  "unat (drop_bit 2 xd AND 0x1f) = (unat (half_word xa xb xc xd xe) div 2 ^ (5 * 2)) mod 2 ^ 5"
proof (rule slice_digit)
  show "\<not> bit (drop_bit 2 xd AND 0x1f) n" if "5 \<le> n" for n
    using that by (intro index_top_bits) (simp_all add: idx_less del: push_bit_Suc)
  show "bit (drop_bit 2 xd AND 0x1f) n = bit (half_word xa xb xc xd xe) (5 * 2 + n)" if "n < 5" for n
    using less_5_cases [OF that]
    by (elim disjE;
        simp add: half_word_def bit_simps and_1f bit_times2 byte_top_bits eval_nat_numeral del: push_bit_Suc)
qed

lemma half_index_6:
  "unat ((push_bit 3 xd AND 0x1f) OR drop_bit 5 xe) = (unat (half_word xa xb xc xd xe) div 2 ^ (5 * 1)) mod 2 ^ 5"
proof (rule slice_digit)
  show "\<not> bit ((push_bit 3 xd AND 0x1f) OR drop_bit 5 xe) n" if "5 \<le> n" for n
    using that by (intro index_top_bits) (simp_all add: idx_less del: push_bit_Suc)
  show "bit ((push_bit 3 xd AND 0x1f) OR drop_bit 5 xe) n = bit (half_word xa xb xc xd xe) (5 * 1 + n)" if "n < 5" for n
    using less_5_cases [OF that]
    by (elim disjE;
        simp add: half_word_def bit_simps and_1f bit_times2 byte_top_bits eval_nat_numeral del: push_bit_Suc)
qed

lemma half_index_7:
  "unat (xe AND 0x1f) = (unat (half_word xa xb xc xd xe) div 2 ^ (5 * 0)) mod 2 ^ 5"
proof (rule slice_digit)
  show "\<not> bit (xe AND 0x1f) n" if "5 \<le> n" for n
    using that by (intro index_top_bits) (simp_all add: idx_less del: push_bit_Suc)
  show "bit (xe AND 0x1f) n = bit (half_word xa xb xc xd xe) (5 * 0 + n)" if "n < 5" for n
    using less_5_cases [OF that]
    by (elim disjE;
        simp add: half_word_def bit_simps and_1f bit_times2 byte_top_bits eval_nat_numeral del: push_bit_Suc)
qed

lemma half_byte_0:
  "unat xa = (unat (half_word xa xb xc xd xe) div 2 ^ (8 * 4)) mod 2 ^ 8"
proof (rule slice_digit)
  show "\<not> bit xa n" if "8 \<le> n" for n
    using that by (rule byte_top_bits)
  show "bit xa n = bit (half_word xa xb xc xd xe) (8 * 4 + n)" if "n < 8" for n
    using less_8_cases [OF that]
    by (elim disjE;
        simp add: half_word_def bit_simps byte_top_bits eval_nat_numeral del: push_bit_Suc)
qed

lemma half_byte_1:
  "unat xb = (unat (half_word xa xb xc xd xe) div 2 ^ (8 * 3)) mod 2 ^ 8"
proof (rule slice_digit)
  show "\<not> bit xb n" if "8 \<le> n" for n
    using that by (rule byte_top_bits)
  show "bit xb n = bit (half_word xa xb xc xd xe) (8 * 3 + n)" if "n < 8" for n
    using less_8_cases [OF that]
    by (elim disjE;
        simp add: half_word_def bit_simps byte_top_bits eval_nat_numeral del: push_bit_Suc)
qed

lemma half_byte_2:
  "unat xc = (unat (half_word xa xb xc xd xe) div 2 ^ (8 * 2)) mod 2 ^ 8"
proof (rule slice_digit)
  show "\<not> bit xc n" if "8 \<le> n" for n
    using that by (rule byte_top_bits)
  show "bit xc n = bit (half_word xa xb xc xd xe) (8 * 2 + n)" if "n < 8" for n
    using less_8_cases [OF that]
    by (elim disjE;
        simp add: half_word_def bit_simps byte_top_bits eval_nat_numeral del: push_bit_Suc)
qed

lemma half_byte_3:
  "unat xd = (unat (half_word xa xb xc xd xe) div 2 ^ (8 * 1)) mod 2 ^ 8"
proof (rule slice_digit)
  show "\<not> bit xd n" if "8 \<le> n" for n
    using that by (rule byte_top_bits)
  show "bit xd n = bit (half_word xa xb xc xd xe) (8 * 1 + n)" if "n < 8" for n
    using less_8_cases [OF that]
    by (elim disjE;
        simp add: half_word_def bit_simps byte_top_bits eval_nat_numeral del: push_bit_Suc)
qed

lemma half_byte_4:
  "unat xe = (unat (half_word xa xb xc xd xe) div 2 ^ (8 * 0)) mod 2 ^ 8"
proof (rule slice_digit)
  show "\<not> bit xe n" if "8 \<le> n" for n
    using that by (rule byte_top_bits)
  show "bit xe n = bit (half_word xa xb xc xd xe) (8 * 0 + n)" if "n < 8" for n
    using less_8_cases [OF that]
    by (elim disjE;
        simp add: half_word_def bit_simps byte_top_bits eval_nat_numeral del: push_bit_Suc)
qed

lemma half_index_digits:
  "map unat [drop_bit 3 xa,
     (push_bit 2 xa AND 0x1f) OR drop_bit 6 xb,
     drop_bit 1 xb AND 0x1f,
     (push_bit 4 xb AND 0x1f) OR drop_bit 4 xc,
     (push_bit 1 xc AND 0x1f) OR drop_bit 7 xd,
     drop_bit 2 xd AND 0x1f,
     (push_bit 3 xd AND 0x1f) OR drop_bit 5 xe,
     xe AND 0x1f] = digits 5 8 (unat (half_word xa xb xc xd xe))"
  unfolding digits_8 list.map
  by (simp only:
      half_index_0 [where xa=xa and xb=xb and xc=xc and xd=xd and xe=xe]
      half_index_1 [where xa=xa and xb=xb and xc=xc and xd=xd and xe=xe]
      half_index_2 [where xa=xa and xb=xb and xc=xc and xd=xd and xe=xe]
      half_index_3 [where xa=xa and xb=xb and xc=xc and xd=xd and xe=xe]
      half_index_4 [where xa=xa and xb=xb and xc=xc and xd=xd and xe=xe]
      half_index_5 [where xa=xa and xb=xb and xc=xc and xd=xd and xe=xe]
      half_index_6 [where xa=xa and xb=xb and xc=xc and xd=xd and xe=xe]
      half_index_7 [where xa=xa and xb=xb and xc=xc and xd=xd and xe=xe])

lemma half_byte_digits:
  "map unat [xa, xb, xc, xd, xe] = digits 8 5 (unat (half_word xa xb xc xd xe))"
  unfolding digits_5 list.map
  by (simp only:
      half_byte_0 [where xa=xa and xb=xb and xc=xc and xd=xd and xe=xe]
      half_byte_1 [where xa=xa and xb=xb and xc=xc and xd=xd and xe=xe]
      half_byte_2 [where xa=xa and xb=xb and xc=xc and xd=xd and xe=xe]
      half_byte_3 [where xa=xa and xb=xb and xc=xc and xd=xd and xe=xe]
      half_byte_4 [where xa=xa and xb=xb and xc=xc and xd=xd and xe=xe])

lemma half_word_less: "unat (half_word xa xb xc xd xe) < 2 ^ 40"
proof -
  have "bit (half_word xa xb xc xd xe) n \<Longrightarrow> n < 40" for n
    by (auto simp: half_word_def bit_simps dest!: bit_imp_le_length)
  then have "take_bit 40 (half_word xa xb xc xd xe) = half_word xa xb xc xd xe"
    by (intro bit_word_eqI) (auto simp: bit_take_bit_iff)
  then have "unat (take_bit 40 (half_word xa xb xc xd xe)) = unat (half_word xa xb xc xd xe)"
    by (rule arg_cong)
  then have "take_bit 40 (unat (half_word xa xb xc xd xe)) = unat (half_word xa xb xc xd xe)"
    by (simp only: unsigned_take_bit_eq)
  then show ?thesis
    using take_bit_nat_less_exp [of 40 "unat (half_word xa xb xc xd xe)"] by simp
qed

lemma GUID_bytes_digits: "map unat (GUID_bytes g) = digits 8 10 (guid_number g)"
proof -
  let ?W1 = "half_word (byte0 g) (byte1 g) (byte2 g) (byte3 g) (byte4 g)"
  let ?W2 = "half_word (byte5 g) (byte6 g) (byte7 g) (byte8 g) (byte9 g)"
  have "unat ?W2 < 2 ^ (8 * 5)" using half_word_less [of "byte5 g" "byte6 g" "byte7 g" "byte8 g" "byte9 g"] by simp
  then have "digits 8 (5 + 5) (unat ?W1 * 2 ^ (8 * 5) + unat ?W2) = digits 8 5 (unat ?W1) @ digits 8 5 (unat ?W2)"
    by (rule digits_append)
  moreover have "map unat (GUID_bytes g)
     = map unat [byte0 g, byte1 g, byte2 g, byte3 g, byte4 g] @ map unat [byte5 g, byte6 g, byte7 g, byte8 g, byte9 g]"
    by (simp add: GUID_bytes_def)
  ultimately show ?thesis
    by (simp only: half_byte_digits guid_number_def) simp
qed

lemma encodeGUID_digits: "map (unat \<circ> the \<circ> DECODE) (encodeGUID g) = digits 5 16 (guid_number g)"
proof -
  let ?W1 = "half_word (byte0 g) (byte1 g) (byte2 g) (byte3 g) (byte4 g)"
  let ?W2 = "half_word (byte5 g) (byte6 g) (byte7 g) (byte8 g) (byte9 g)"
  have "unat ?W2 < 2 ^ (5 * 8)" using half_word_less [of "byte5 g" "byte6 g" "byte7 g" "byte8 g" "byte9 g"] by simp
  then have d: "digits 5 (8 + 8) (unat ?W1 * 2 ^ (5 * 8) + unat ?W2) = digits 5 8 (unat ?W1) @ digits 5 8 (unat ?W2)"
    by (rule digits_append)
  have "map (unat \<circ> the \<circ> DECODE) (encodeGUID g) = map unat (map (the \<circ> DECODE) (encodeGUID g))"
    by simp
  also have "\<dots> = map unat [drop_bit 3 (byte0 g),
      (push_bit 2 (byte0 g) AND 0x1f) OR drop_bit 6 (byte1 g),
      drop_bit 1 (byte1 g) AND 0x1f,
      (push_bit 4 (byte1 g) AND 0x1f) OR drop_bit 4 (byte2 g),
      (push_bit 1 (byte2 g) AND 0x1f) OR drop_bit 7 (byte3 g),
      drop_bit 2 (byte3 g) AND 0x1f,
      (push_bit 3 (byte3 g) AND 0x1f) OR drop_bit 5 (byte4 g),
      byte4 g AND 0x1f]
    @ map unat [drop_bit 3 (byte5 g),
      (push_bit 2 (byte5 g) AND 0x1f) OR drop_bit 6 (byte6 g),
      drop_bit 1 (byte6 g) AND 0x1f,
      (push_bit 4 (byte6 g) AND 0x1f) OR drop_bit 4 (byte7 g),
      (push_bit 1 (byte7 g) AND 0x1f) OR drop_bit 7 (byte8 g),
      drop_bit 2 (byte8 g) AND 0x1f,
      (push_bit 3 (byte8 g) AND 0x1f) OR drop_bit 5 (byte9 g),
      byte9 g AND 0x1f]"
    by (simp only: indices_encodeGUID map_append [symmetric] append.simps)
  also have "\<dots> = digits 5 8 (unat ?W1) @ digits 5 8 (unat ?W2)"
    by (simp only: half_index_digits)
  also have "\<dots> = digits 5 16 (guid_number g)"
    using d by (simp add: guid_number_def)
  finally show ?thesis .
qed

lemma guid_text_order:
  "ord_class.lexordp_eq (GUID_bytes x) (GUID_bytes y) \<longleftrightarrow>
   ord_class.lexordp_eq (map (unat \<circ> the \<circ> DECODE) (encodeGUID x)) (map (unat \<circ> the \<circ> DECODE) (encodeGUID y))"
proof -
  have "ord_class.lexordp_eq (GUID_bytes x) (GUID_bytes y)
      \<longleftrightarrow> ord_class.lexordp_eq (map unat (GUID_bytes x)) (map unat (GUID_bytes y))"
    by (simp only: lexordp_eq_map_unat)
  also have "\<dots> \<longleftrightarrow> guid_number x mod 2 ^ (8 * 10) \<le> guid_number y mod 2 ^ (8 * 10)"
    by (simp only: GUID_bytes_digits digits_le_iff)
  also have "\<dots> \<longleftrightarrow> guid_number x mod 2 ^ (5 * 16) \<le> guid_number y mod 2 ^ (5 * 16)"
    by simp
  also have "\<dots> \<longleftrightarrow> ord_class.lexordp_eq (digits 5 16 (guid_number x)) (digits 5 16 (guid_number y))"
    by (simp only: digits_le_iff)
  finally show ?thesis by (simp only: encodeGUID_digits)
qed

lemma DECODE_z: "DECODE 122 = Some 25"
  using DECODE_hit [of 25] by (simp add: ENCODE_def)

lemma DECODE_1: "DECODE 49 = Some 26"
  using DECODE_hit [of 26] by (simp add: ENCODE_def)

text \<open>
  The restriction to non-negative values is needed: a negative value has bit 4 of its first
  index set by the sign extension of \<open>>>\<close>, so \<open>-1\<close> is below 0 while its first index, 31,
  is above the first index of 0.
\<close>

lemma index_order_needs_nonnegative:
  "(- 1 :: int64) \<le>s 0
   \<and> map (unat \<circ> the \<circ> DECODE) (encode (- 1)) = [31, 31, 31, 31, 31, 31, 31, 31, 31, 31, 31, 31, 31]
   \<and> map (unat \<circ> the \<circ> DECODE) (encode 0) = [0, 0, 0, 0, 0, 0, 0, 0, 0, 0, 0, 0, 0]"
proof -
  have "DECODE 54 = Some 31"
    using DECODE_hit [of 31] by (simp add: ENCODE_def)
  then show ?thesis
    by (simp add: word_sle_eq encode_unfold ENCODE_def DECODE_a)
qed

section \<open>The later GUID revision\<close>

lemma and_0f: "x AND 0x0f = take_bit 4 x" for x :: "'a::len word"
  by (simp add: take_bit_eq_mask mask_numeral)

lemma Group_rev_packed:
  fixes g x :: byte
  assumes "g \<le> 15"
  shows "drop_bit 4 (push_bit 4 g OR (x AND 0x0f)) = g"
proof -
  have "g < 2 ^ 4" using assms by (simp add: word_le_nat_alt word_less_nat_alt)
  then have b: "\<And>k. bit g k \<Longrightarrow> k < 4" by (rule bit_below)
  show ?thesis
    unfolding and_0f
    by (rule bit_word_eqI) (auto simp add: bit_simps simp del: push_bit_Suc dest: b)
qed

lemma New_rev_group_check:
  "(15 < grp \<longrightarrow> New_rev (grp # rest) now h c = Panicked (InvalidInputGroup_rev grp))
   \<and> (grp \<le> 15 \<longrightarrow> (\<exists>u c'. New_rev (grp # rest) now h c = Returned (u, c') \<and> Group_rev u = grp))
   \<and> (\<exists>u c'. New_rev [] now h c = Returned (u, c') \<and> Group_rev u = 0)"
  using Group_rev_packed [of grp] Group_rev_packed [of 0]
  by (auto simp add: New_rev_def MAX_GROUP_rev_def Let_def Group_rev_def simp del: push_bit_Suc)

lemma DECODE_coder_eq: "DECODE_coder = DECODE"
  by (simp add: DECODE_coder_def DECODE_def ENCODE_coder_def ENCODE_def)

lemma decode_scan_coder_eq: "decode_scan_coder d i = decode_scan d i"
proof (induction d i rule: decode_scan.induct)
  case (1 d i)
  show ?case
    using 1 [unfolded DECODE_coder_eq [symmetric]]
    by (subst decode_scan_coder.simps, subst decode_scan.simps)
      (simp add: DECODE_coder_eq split: option.splits)
qed

lemma fst_decodeFrom: "fst (decodeFrom g d) = fst (decodeGUID d)"
  by (simp add: decodeFrom_def decodeGUID_def decode_scan_coder_eq split: prod.splits option.splits)

section \<open>Claims\<close>

text \<open>
  C1 (scenario A). With the clock at 1745400001, the counter at 4 (so that the call draws
  sequence 5) and host id 3, \<open>New\<close> returns the integer
  \<open>(1745400001 << 30) | (5 << 8) | 3\<close>, which is 1874108980683343107; its text form has 13
  characters and decodes back to that exact integer.
\<close>

theorem scenario_A_pack_and_roundtrip:
  "suid_value (fst (New 1745400001 \<lparr>var_HOST_ID = 3, var_SEQ = 4\<rparr>))
     = push_bit 30 1745400001 OR push_bit 8 5 OR 3
   \<and> push_bit 30 1745400001 OR push_bit 8 5 OR 3 = (1874108980683343107 :: int64)
   \<and> String (fst (New 1745400001 \<lparr>var_HOST_ID = 3, var_SEQ = 4\<rparr>)) = map of_char ''buarmgbaaabid''
   \<and> length (encode 1874108980683343107) = 13
   \<and> decode (encode 1874108980683343107) = (1874108980683343107, None)"
  using decode_encode [of 1874108980683343107]
  by (simp add: New_def WID_SEQ_eq WID_HOST_eq go_rem_def MAX_SEQ_def signed_modulo_int_def
      String_def encode_scenario_A)

text \<open>
  C2. Decoding the text encoding returns the original value. For every 64-bit value \<open>v\<close>
  (negative ones included) \<open>decode (encode v)\<close> is \<open>v\<close> with a nil error, so
  \<open>FromString (s.String())\<close> is \<open>s\<close>; for every ten-byte GUID \<open>g\<close>,
  \<open>decodeGUID (encodeGUID g)\<close> yields \<open>g\<close> with a nil error, so
  \<open>ParseGUID (g.String())\<close> is \<open>g\<close>. Both statements hold for all values, so the
  boundary values are covered.
\<close>

theorem decode_encode_roundtrip:
  "decode (encode v) = (v, None)
   \<and> FromString (String s) = (s, None)
   \<and> snd (decodeGUID (encodeGUID g)) = (g, None)
   \<and> ParseGUID (String_GUID g) = (g, None)"
  by (simp add: decode_encode decodeGUID_encodeGUID FromString_def String_def ParseGUID_def
      String_GUID_def)

text \<open>
  C3, as stated, fails. The alphabet \<open>a-z\<close>, \<open>1-6\<close> is not in ascending byte order: the
  digits (bytes 49 to 54) follow the letters (bytes 97 to 122). The values 25 and 26 encode to
  texts ending in \<open>z\<close> and \<open>1\<close>, so the smaller value has the bytewise larger text, for
  SUID and for GUID alike.
\<close>

theorem text_order_not_byte_order:
  "(25 :: int64) \<le>s 26
   \<and> encode 25 = map of_char ''aaaaaaaaaaaaz''
   \<and> encode 26 = map of_char ''aaaaaaaaaaaa1''
   \<and> \<not> ord_class.lexordp_eq (encode 25) (encode 26)
   \<and> ord_class.lexordp_eq (GUID_bytes (GUID 0 0 0 0 0 0 0 0 0 25)) (GUID_bytes (GUID 0 0 0 0 0 0 0 0 0 26))
   \<and> \<not> ord_class.lexordp_eq (encodeGUID (GUID 0 0 0 0 0 0 0 0 0 25)) (encodeGUID (GUID 0 0 0 0 0 0 0 0 0 26))
   \<and> ENCODE ! 26 < ENCODE ! 25
   \<and> \<not> sorted ENCODE"
  by (simp add: encode_unfold encodeGUID_def GUID_bytes_def ENCODE_def word_sle_eq)

text \<open>
  C3, amended. The alphabet has 32 distinct symbols, ascending within the letters and within
  the digits, and every digit's byte is below every letter's. Comparing symbols by their index in the alphabet instead of their byte value,
  the fixed-length texts are ordered exactly as the packed values are: for non-negative SUID
  values \<open>a\<close> and \<open>b\<close>, \<open>a \<le> b\<close> holds if and only if the index sequence of
  \<open>encode a\<close> is lexicographically at most that of \<open>encode b\<close>; for GUIDs the same holds
  with the bytewise order of the ten bytes.
\<close>

theorem text_order_by_alphabet_index:
  "distinct ENCODE \<and> sorted (take 26 ENCODE) \<and> sorted (drop 26 ENCODE)
   \<and> (\<forall>d \<in> set (drop 26 ENCODE). \<forall>l \<in> set (take 26 ENCODE). d < l)
   \<and> (0 \<le>s a \<and> 0 \<le>s b \<longrightarrow>
        (a \<le>s b \<longleftrightarrow>
         ord_class.lexordp_eq (map (unat \<circ> the \<circ> DECODE) (encode a))
                              (map (unat \<circ> the \<circ> DECODE) (encode b))))
   \<and> (ord_class.lexordp_eq (GUID_bytes x) (GUID_bytes y) \<longleftrightarrow>
        ord_class.lexordp_eq (map (unat \<circ> the \<circ> DECODE) (encodeGUID x))
                             (map (unat \<circ> the \<circ> DECODE) (encodeGUID y)))"
proof -
  have "distinct ENCODE" "sorted (take 26 ENCODE)" "sorted (drop 26 ENCODE)"
    "\<forall>d \<in> set (drop 26 ENCODE). \<forall>l \<in> set (take 26 ENCODE). d < l"
    by (simp_all add: ENCODE_def)
  then show ?thesis
    using suid_text_order [of a b] guid_text_order [of x y] by blast
qed

text \<open>
  The values 25 and 26 of the counterexample, compared by index.
\<close>

theorem text_order_by_alphabet_index_witness:
  "ord_class.lexordp_eq (map (unat \<circ> the \<circ> DECODE) (encode 25)) (map (unat \<circ> the \<circ> DECODE) (encode 26))
   \<and> map (unat \<circ> the \<circ> DECODE) (encode 25) = [0, 0, 0, 0, 0, 0, 0, 0, 0, 0, 0, 0, 25]
   \<and> map (unat \<circ> the \<circ> DECODE) (encode 26) = [0, 0, 0, 0, 0, 0, 0, 0, 0, 0, 0, 0, 26]"
proof -
  have "(0::int64) \<le>s 25" "(0::int64) \<le>s 26" "(25::int64) \<le>s 26"
    by (simp_all add: word_sle_eq)
  with text_order_by_alphabet_index [of 25 26]
  have "ord_class.lexordp_eq (map (unat \<circ> the \<circ> DECODE) (encode 25)) (map (unat \<circ> the \<circ> DECODE) (encode 26))"
    by blast
  moreover have "map (unat \<circ> the \<circ> DECODE) (encode 25) = [0, 0, 0, 0, 0, 0, 0, 0, 0, 0, 0, 0, 25]"
    "map (unat \<circ> the \<circ> DECODE) (encode 26) = [0, 0, 0, 0, 0, 0, 0, 0, 0, 0, 0, 0, 26]"
    by (simp_all add: encode_unfold ENCODE_def DECODE_a DECODE_z DECODE_1)
  ultimately show ?thesis by simp
qed




text \<open>
  C5. For every GUID field tuple within the declared widths (group at most 7, time below
  \<open>2^53\<close>, sequence below \<open>2^17\<close>, host below \<open>2^7\<close>; the comparisons are
  unsigned, so no field is negative), the ten bytes that \<open>NewGUID\<close> assembles from the
  tuple give back exactly the tuple through the accessors \<open>Group\<close>, \<open>Time\<close>, \<open>Seq\<close>
  and \<open>HostID\<close>.
\<close>

theorem guid_fields_roundtrip:
  assumes "g \<le> 7" and "time < 2 ^ 53" and "s < 2 ^ 17" and "host < 2 ^ 7"
  shows "Group (guid_bytes g time s host) = g
         \<and> Time_GUID (guid_bytes g time s host) = time
         \<and> Seq_GUID (guid_bytes g time s host) = s
         \<and> HostID (guid_bytes g time s host) = host"
  using assms
  by (simp add: Group_guid_bytes Time_guid_bytes Seq_guid_bytes HostID_guid_bytes)

text \<open>
  The tuple of the field maxima and the all-zero tuple.
\<close>

theorem guid_fields_roundtrip_witness:
  "Group (guid_bytes 7 0x1FFFFFFFFFFFFF 0x1FFFF 0x7F) = 7
   \<and> Time_GUID (guid_bytes 7 0x1FFFFFFFFFFFFF 0x1FFFF 0x7F) = 0x1FFFFFFFFFFFFF
   \<and> Seq_GUID (guid_bytes 7 0x1FFFFFFFFFFFFF 0x1FFFF 0x7F) = 0x1FFFF
   \<and> HostID (guid_bytes 7 0x1FFFFFFFFFFFFF 0x1FFFF 0x7F) = 0x7F
   \<and> Group (guid_bytes 0 0 0 0) = 0
   \<and> Time_GUID (guid_bytes 0 0 0 0) = 0
   \<and> Seq_GUID (guid_bytes 0 0 0 0) = 0
   \<and> HostID (guid_bytes 0 0 0 0) = 0"
  using guid_fields_roundtrip [of 7 "0x1FFFFFFFFFFFFF" "0x1FFFF" "0x7F"]
    guid_fields_roundtrip [of 0 0 0 0]
  by simp

text \<open>
  C6. Text decoding succeeds exactly on inputs of the right length (13 for SUID, 16 for GUID)
  whose bytes all belong to the alphabet. Every other input yields an error and the zero
  value, never a partly reconstructed one: a wrong length gives the length error, a byte
  outside the alphabet gives the invalid-character error naming such a byte. The length is
  checked before any byte is read, so no input makes the decoder read out of range.
\<close>

theorem decode_rejects_malformed:
  "(snd (decode d) = None \<longleftrightarrow> length d = 13 \<and> set d \<subseteq> set ENCODE)
   \<and> (snd (decode d) \<noteq> None \<longrightarrow> fst (decode d) = 0)
   \<and> (length d \<noteq> 13 \<longrightarrow> decode d = (0, Some InvalidLength))
   \<and> (length d = 13 \<and> \<not> set d \<subseteq> set ENCODE \<longrightarrow>
        (\<exists>c\<in>set d - set ENCODE. decode d = (0, Some (InvalidSuidCharacter c))))
   \<and> (snd (snd (decodeGUID t)) = None \<longleftrightarrow> length t = 16 \<and> set t \<subseteq> set ENCODE)
   \<and> (snd (snd (decodeGUID t)) \<noteq> None \<longrightarrow> fst (snd (decodeGUID t)) = zero_GUID)
   \<and> (length t \<noteq> 16 \<longrightarrow> ParseGUID t = (zero_GUID, Some InvalidLength))
   \<and> (length t = 16 \<and> \<not> set t \<subseteq> set ENCODE \<longrightarrow>
        (\<exists>c\<in>set t - set ENCODE. ParseGUID t = (zero_GUID, Some (InvalidUuidCharacter c))))"
  using decode_ok_iff [of d] decode_error_zero [of d] decode_invalid_char [of d]
    decodeGUID_ok_iff [of t] decodeGUID_error_zero [of t] decodeGUID_invalid_char [of t]
  by (simp add: decode_def ParseGUID_def decodeGUID_length)

text \<open>
  A three-byte SUID text, a 13-byte text with the byte \<open>0\<close>, GUID texts of length 15 and
  17 (scenario B) and a 16-byte GUID text with the byte \<open>7\<close>.
\<close>

theorem decode_rejects_malformed_witness:
  "decode (map of_char ''abc'') = (0, Some InvalidLength)
   \<and> decode (map of_char ''abcdefghijk0m'') = (0, Some (InvalidSuidCharacter (of_char CHR ''0'')))
   \<and> ParseGUID (map of_char ''aaaaaaaaaaaaaaa'') = (zero_GUID, Some InvalidLength)
   \<and> ParseGUID (map of_char ''aaaaaaaaaaaaaaaaa'') = (zero_GUID, Some InvalidLength)
   \<and> ParseGUID (map of_char ''aaaaaaaaaaaaaaa7'') = (zero_GUID, Some (InvalidUuidCharacter (of_char CHR ''7'')))"
  using decode_rejects_malformed [of "map of_char ''abc''" "map of_char ''aaaaaaaaaaaaaaa''"]
    decode_rejects_malformed [of "map of_char ''abcdefghijk0m''" "map of_char ''aaaaaaaaaaaaaaaaa''"]
    decode_rejects_malformed [of "map of_char ''abc''" "map of_char ''aaaaaaaaaaaaaaa7''"]
  by (auto simp: ENCODE_def)

text \<open>
  C7, as stated, fails: a group above the field's capacity is rejected, but by a panic, not by
  a typed error result. \<open>NewGUID\<close> has no error result at all; group 8 makes it panic, as
  group 16 does with \<open>New\<close> of the later revision.
\<close>

theorem NewGUID_panics:
  "NewGUID [8] 1770904743122773 \<lparr>var_HOST_ID_p2 = 3, var_seq = 0\<rparr> = Panicked (InvalidInputGroup 8)
   \<and> \<not> (\<exists>r. NewGUID [8] 1770904743122773 \<lparr>var_HOST_ID_p2 = 3, var_seq = 0\<rparr> = Returned r)
   \<and> New_rev [16] 1770904743122773 3 0 = Panicked (InvalidInputGroup_rev 16)
   \<and> \<not> (\<exists>r. New_rev [16] 1770904743122773 3 0 = Returned r)"
  by (simp add: NewGUID_def MAX_GROUP_def New_rev_def MAX_GROUP_rev_def)

text \<open>
  C7, amended. Constructing a GUID with a group above the field's capacity (7; 15 in the
  later revision) is rejected at call time by a panic carrying the group, never silently
  truncated; for every in-range group, and with no group given, the call returns a GUID whose
  group field is the given group (0 when none is given).
\<close>

theorem NewGUID_group_check:
  "(7 < grp \<longrightarrow> NewGUID (grp # rest) now g = Panicked (InvalidInputGroup grp))
   \<and> (grp \<le> 7 \<longrightarrow> (\<exists>u g'. NewGUID (grp # rest) now g = Returned (u, g') \<and> Group u = grp))
   \<and> (\<exists>u g'. NewGUID [] now g = Returned (u, g') \<and> Group u = 0)
   \<and> (15 < grp \<longrightarrow> New_rev (grp # rest) now h c = Panicked (InvalidInputGroup_rev grp))
   \<and> (grp \<le> 15 \<longrightarrow> (\<exists>u c'. New_rev (grp # rest) now h c = Returned (u, c') \<and> Group_rev u = grp))
   \<and> (\<exists>u c'. New_rev [] now h c = Returned (u, c') \<and> Group_rev u = 0)"
proof -
  have "(7 < grp \<longrightarrow> NewGUID (grp # rest) now g = Panicked (InvalidInputGroup grp))
   \<and> (grp \<le> 7 \<longrightarrow> (\<exists>u g'. NewGUID (grp # rest) now g = Returned (u, g') \<and> Group u = grp))
   \<and> (\<exists>u g'. NewGUID [] now g = Returned (u, g') \<and> Group u = 0)"
    by (auto simp: NewGUID_def MAX_GROUP_byte Let_def Group_guid_bytes)
  with New_rev_group_check [of grp rest now h c] show ?thesis by simp
qed

text \<open>
  Groups 8 and 16 panic; groups 7 and 15, the largest in range, are stored as they are.
\<close>

theorem NewGUID_group_check_witness:
  "NewGUID [8] 1770904743122773 \<lparr>var_HOST_ID_p2 = 3, var_seq = 0\<rparr> = Panicked (InvalidInputGroup 8)
   \<and> (\<exists>u g'. NewGUID [7] 1770904743122773 \<lparr>var_HOST_ID_p2 = 3, var_seq = 0\<rparr> = Returned (u, g')
        \<and> Group u = 7)
   \<and> New_rev [16] 1770904743122773 3 0 = Panicked (InvalidInputGroup_rev 16)
   \<and> (\<exists>u c'. New_rev [15] 1770904743122773 3 0 = Returned (u, c') \<and> Group_rev u = 15)"
  using NewGUID_group_check [of 8 "[]" 1770904743122773 "\<lparr>var_HOST_ID_p2 = 3, var_seq = 0\<rparr>" 3 0]
    NewGUID_group_check [of 7 "[]" 1770904743122773 "\<lparr>var_HOST_ID_p2 = 3, var_seq = 0\<rparr>" 3 0]
    NewGUID_group_check [of 16 "[]" 1770904743122773 "\<lparr>var_HOST_ID_p2 = 3, var_seq = 0\<rparr>" 3 0]
    NewGUID_group_check [of 15 "[]" 1770904743122773 "\<lparr>var_HOST_ID_p2 = 3, var_seq = 0\<rparr>" 3 0]
  by simp

text \<open>
  C8. The host field read back from a generated identifier is the cached host id.
  \<open>SUID.Host()\<close> of the identifier \<open>New\<close> returns equals the cached \<open>_HOST_ID\<close> for every
  cached value within 8 bits, and the resolver of suid.go, which masks every source with
  \<open>0xff\<close>, delivers only such values. \<open>GUID.HostID()\<close> of the identifier \<open>NewGUID\<close> returns
  equals the cached \<open>_HOST_ID\<close> for every cached value within 7 bits, and the resolver of the
  package \<open>NewGUID\<close> is compiled in, which masks every source with \<open>0x7f\<close>, delivers only
  such values. Neither call changes the cached id, so the same holds for every later call.
  The bounds are unsigned comparisons, so a bounded id is not negative.
\<close>

theorem host_field_is_cached_id:
  "(var_HOST_ID g \<le> MAX_HOST \<longrightarrow>
      Host (fst (New now g)) = var_HOST_ID g \<and> var_HOST_ID (snd (New now g)) = var_HOST_ID g)
   \<and> var_HOST_ID (init_globals env_id pod_id ip_last rnd) \<le> MAX_HOST
   \<and> Host (fst (New now (init_globals env_id pod_id ip_last rnd)))
       = getHostID env_id pod_id ip_last rnd
   \<and> (var_HOST_ID_p2 h \<le> MAX_HOST_p2 \<and> NewGUID grps t h = Returned (u, h') \<longrightarrow>
        HostID u = var_HOST_ID_p2 h \<and> var_HOST_ID_p2 h' = var_HOST_ID_p2 h)
   \<and> var_HOST_ID_p2 (init_globals_guid env_id pod_id ip_last rnd) \<le> MAX_HOST_p2
   \<and> (NewGUID grps t (init_globals_guid env_id pod_id ip_last rnd) = Returned (u, h') \<longrightarrow>
        HostID u = getHostID_p2 env_id pod_id ip_last rnd)"
proof -
  have a: "var_HOST_ID (init_globals env_id pod_id ip_last rnd) = getHostID env_id pod_id ip_last rnd"
    and b: "var_HOST_ID_p2 (init_globals_guid env_id pod_id ip_last rnd)
              = getHostID_p2 env_id pod_id ip_last rnd"
    by (simp_all add: init_globals_def init_globals_guid_def)
  have "var_HOST_ID (snd (New now g)) = var_HOST_ID g"
    by (simp add: New_def Let_def)
  moreover have "Host (fst (New now (init_globals env_id pod_id ip_last rnd)))
       = getHostID env_id pod_id ip_last rnd"
    using Host_New_bounded [of "init_globals env_id pod_id ip_last rnd" now]
    by (simp add: a getHostID_le)
  moreover have "HostID u = getHostID_p2 env_id pod_id ip_last rnd"
    if "NewGUID grps t (init_globals_guid env_id pod_id ip_last rnd) = Returned (u, h')"
    using HostID_NewGUID_bounded(1) [OF _ that] by (simp add: b getHostID_p2_le)
  moreover have "HostID u = var_HOST_ID_p2 h \<and> var_HOST_ID_p2 h' = var_HOST_ID_p2 h"
    if "var_HOST_ID_p2 h \<le> MAX_HOST_p2" and "NewGUID grps t h = Returned (u, h')"
    using HostID_NewGUID_bounded [OF that] by simp
  ultimately show ?thesis
    by (simp add: a b getHostID_le getHostID_p2_le Host_New_bounded)
qed

text \<open>
  With \<open>SUID_HOST_ID=200\<close> in the environment the cached id of suid.go is 200 and that of
  the package of \<open>NewGUID\<close> is \<open>200 & 0x7f = 72\<close>; the generated identifiers give back 200
  and 72. The largest ids, 255 and 127, are given back as well.
\<close>

theorem host_field_is_cached_id_witness:
  "var_HOST_ID (init_globals (Some 200) None None 0) = 200
   \<and> Host (fst (New 1745400001 (init_globals (Some 200) None None 0))) = 200
   \<and> Host (fst (New 1745400001 \<lparr>var_HOST_ID = 255, var_SEQ = 0\<rparr>)) = 255
   \<and> var_HOST_ID_p2 (init_globals_guid (Some 200) None None 0) = 72
   \<and> NewGUID [] 1770904743122773 (init_globals_guid (Some 200) None None 0)
       = Returned (guid_bytes 0 1770904743122773 1 72, \<lparr>var_HOST_ID_p2 = 72, var_seq = 1\<rparr>)
   \<and> HostID (guid_bytes 0 1770904743122773 1 72) = 72
   \<and> NewGUID [] 1770904743122773 \<lparr>var_HOST_ID_p2 = 127, var_seq = 0\<rparr>
       = Returned (guid_bytes 0 1770904743122773 1 127, \<lparr>var_HOST_ID_p2 = 127, var_seq = 1\<rparr>)
   \<and> HostID (guid_bytes 0 1770904743122773 1 127) = 127"
proof -
  have e: "getHostID (Some 200) None None 0 = 200" "getHostID_p2 (Some 200) None None 0 = 72"
    by (simp_all add: getHostID_def getHostID_p2_def MAX_HOST_def MAX_HOST_p2_def)
  have c: "var_HOST_ID_p2 (init_globals_guid (Some 200) None None 0) = 72"
    by (simp add: init_globals_guid_def e)
  have r: "NewGUID [] 1770904743122773 (init_globals_guid (Some 200) None None 0)
       = Returned (guid_bytes 0 1770904743122773 1 72, \<lparr>var_HOST_ID_p2 = 72, var_seq = 1\<rparr>)"
    "NewGUID [] 1770904743122773 \<lparr>var_HOST_ID_p2 = 127, var_seq = 0\<rparr>
       = Returned (guid_bytes 0 1770904743122773 1 127, \<lparr>var_HOST_ID_p2 = 127, var_seq = 1\<rparr>)"
    by (simp_all add: NewGUID_def init_globals_guid_def e MAX_GROUP_def go_rem_def max_seq_def
        signed_modulo_int_def)
  show ?thesis
    using host_field_is_cached_id [where g = "\<lparr>var_HOST_ID = 255, var_SEQ = 0\<rparr>" and now = 1745400001
        and env_id = "Some 200" and pod_id = None and ip_last = None and rnd = 0
        and h = "\<lparr>var_HOST_ID_p2 = 127, var_seq = 0\<rparr>" and grps = "[]" and t = 1770904743122773
        and u = "guid_bytes 0 1770904743122773 1 127" and h' = "\<lparr>var_HOST_ID_p2 = 127, var_seq = 1\<rparr>"]
      host_field_is_cached_id [where g = "\<lparr>var_HOST_ID = 255, var_SEQ = 0\<rparr>" and now = 1745400001
        and env_id = "Some 200" and pod_id = None and ip_last = None and rnd = 0
        and h = "\<lparr>var_HOST_ID_p2 = 127, var_seq = 0\<rparr>" and grps = "[]" and t = 1770904743122773
        and u = "guid_bytes 0 1770904743122773 1 72" and h' = "\<lparr>var_HOST_ID_p2 = 72, var_seq = 1\<rparr>"]
    by (simp add: r e c init_globals_def MAX_HOST_def MAX_HOST_p2_def)
qed

text \<open>
  C9. \<open>decodeGUID\<close> (and with it \<open>UnmarshalText\<close>, which passes the caller's slice on,
  and likewise \<open>decodeFrom\<close> of the later revision) overwrites its 16-byte input in place.
  When every byte is an alphabet symbol, the buffer ends up holding each symbol's 5-bit
  index, which differs from the symbol at every position.
  When position \<open>i\<close> holds the first byte outside the alphabet, the decode fails with that
  byte, every position before \<open>i\<close> already holds its index, and the rest is untouched.
\<close>

theorem decodeGUID_overwrites_input:
  assumes "length d = 16"
  shows "(set d \<subseteq> set ENCODE \<longrightarrow>
            fst (decodeGUID d) = map (the \<circ> DECODE) d
            \<and> (\<forall>k<16. fst (decodeGUID d) ! k \<noteq> d ! k)
            \<and> snd (snd (decodeGUID d)) = None)
         \<and> (i < 16 \<and> d ! i \<notin> set ENCODE \<and> (\<forall>k<i. d ! k \<in> set ENCODE) \<longrightarrow>
            decodeGUID d = (map (the \<circ> DECODE) (take i d) @ drop i d, zero_GUID,
                            Some (InvalidUuidCharacter (d ! i)))
            \<and> (\<forall>k<i. fst (decodeGUID d) ! k = the (DECODE (d ! k)) \<and> fst (decodeGUID d) ! k \<noteq> d ! k))
         \<and> fst (UnmarshalText_GUID s d) = fst (decodeGUID d)
         \<and> fst (decodeFrom s d) = fst (decodeGUID d)"
proof (intro conjI impI)
  assume v: "set d \<subseteq> set ENCODE"
  show "fst (decodeGUID d) = map (the \<circ> DECODE) d" "snd (snd (decodeGUID d)) = None"
    using assms v by (simp_all add: decodeGUID_valid)
  then show "\<forall>k<16. fst (decodeGUID d) ! k \<noteq> d ! k"
    using assms v DECODE_changes by (auto simp: subset_iff)
next
  assume a: "i < 16 \<and> d ! i \<notin> set ENCODE \<and> (\<forall>k<i. d ! k \<in> set ENCODE)"
  then show r: "decodeGUID d = (map (the \<circ> DECODE) (take i d) @ drop i d, zero_GUID,
                            Some (InvalidUuidCharacter (d ! i)))"
    using assms decodeGUID_invalid [of d i] by (simp add: DECODE_None_iff)
  show "\<forall>k<i. fst (decodeGUID d) ! k = the (DECODE (d ! k)) \<and> fst (decodeGUID d) ! k \<noteq> d ! k"
    using a assms DECODE_changes by (auto simp: r nth_append)
next
  show "fst (UnmarshalText_GUID s d) = fst (decodeGUID d)"
    by (simp add: UnmarshalText_GUID_def split: prod.splits option.splits)
next
  show "fst (decodeFrom s d) = fst (decodeGUID d)"
    by (rule fst_decodeFrom)
qed

text \<open>
  An all-valid text, and a text whose third byte is outside the alphabet: the first two
  bytes have been replaced by their indices 0 and 1.
\<close>

theorem decodeGUID_overwrites_input_witness:
  "fst (decodeGUID (map of_char ''aaaaaaaaaaaaaaaa'')) = replicate 16 0
   \<and> fst (decodeGUID (map of_char ''ab!aaaaaaaaaaaaa'')) = [0, 1] @ map of_char ''!aaaaaaaaaaaaa''
   \<and> snd (decodeGUID (map of_char ''ab!aaaaaaaaaaaaa''))
       = (zero_GUID, Some (InvalidUuidCharacter (of_char CHR ''!'')))"
proof -
  let ?d1 = "map of_char ''aaaaaaaaaaaaaaaa'' :: byte list"
  let ?d2 = "map of_char ''ab!aaaaaaaaaaaaa'' :: byte list"
  have "length ?d1 = 16" "set ?d1 \<subseteq> set ENCODE"
    by (simp_all add: ENCODE_def)
  with decodeGUID_overwrites_input [of ?d1 0 zero_GUID]
  have "fst (decodeGUID ?d1) = map (the \<circ> DECODE) ?d1" by blast
  moreover have "replicate 16 (0::byte) = [0, 0, 0, 0, 0, 0, 0, 0, 0, 0, 0, 0, 0, 0, 0, 0]"
    by (simp add: numeral_eq_Suc)
  ultimately have 1: "fst (decodeGUID ?d1) = replicate 16 0"
    by (simp add: DECODE_a)
  have "k < 2 \<Longrightarrow> ?d2 ! k \<in> set ENCODE" for k
    by (cases k) (simp_all add: ENCODE_def)
  moreover have "length ?d2 = 16" "(2::nat) < 16" "?d2 ! 2 \<notin> set ENCODE"
    by (simp_all add: ENCODE_def)
  ultimately have "decodeGUID ?d2 = (map (the \<circ> DECODE) (take 2 ?d2) @ drop 2 ?d2, zero_GUID,
      Some (InvalidUuidCharacter (?d2 ! 2)))"
    using decodeGUID_overwrites_input [of ?d2 2 zero_GUID] by blast
  then have 2: "decodeGUID ?d2 = ([0, 1] @ map of_char ''!aaaaaaaaaaaaa'', zero_GUID,
      Some (InvalidUuidCharacter (of_char CHR ''!'')))"
    by (simp add: DECODE_a DECODE_b)
  from 1 2 show ?thesis by simp
qed

text \<open>
  C10. SUID text decoding is not injective on the strings it accepts: the 13-symbol strings
  \<open>aaaaaaaaaaaaa\<close> and \<open>qaaaaaaaaaaaa\<close>, whose first symbols have the indices 0 and 16
  and which agree elsewhere, both decode without error to 0, so encoding the decoded value
  does not give back \<open>qaaaaaaaaaaaa\<close>.
\<close>

theorem decode_not_injective:
  "decode (map of_char ''aaaaaaaaaaaaa'') = (0, None)
   \<and> decode (map of_char ''qaaaaaaaaaaaa'') = (0, None)
   \<and> (map of_char ''qaaaaaaaaaaaa'' :: byte list) \<noteq> map of_char ''aaaaaaaaaaaaa''
   \<and> encode (fst (decode (map of_char ''qaaaaaaaaaaaa''))) \<noteq> map of_char ''qaaaaaaaaaaaa''
   \<and> the (DECODE (of_char CHR ''q'')) = the (DECODE (of_char CHR ''a'')) + 16"
  by (simp add: decode_def decode_loop.simps DECODE_a DECODE_q encode_unfold ENCODE_def)

end
